theory Spec2Isabelle
  imports Main "HOL-Library.AList" "HOL-Library.Char_ord" "HOL-Library.List_Lexorder"
begin

section \<open>The account documents of bot.py: parser, writer and sync\<close>

text \<open>
  The development embeds four functions of \<^verbatim>\<open>bot.py\<close>:
  \<^verbatim>\<open>_strip_quotes\<close>, \<^verbatim>\<open>parse_accounts_accounts_section\<close>,
  \<^verbatim>\<open>write_pk_yaml\<close> and \<^verbatim>\<open>sync_config_to_pk\<close> (with
  \<^verbatim>\<open>read_accounts_file\<close>), together with the pieces of the Python library they
  call: \<^verbatim>\<open>str.strip\<close>, \<^verbatim>\<open>str.splitlines\<close>, \<^verbatim>\<open>sorted\<close> and the
  five regular expressions handed to \<^verbatim>\<open>re.match\<close>.

  A Python string is a \<open>string\<close>: a list of characters, each character standing for
  the code point of the same number, so the model covers the texts whose code points
  are below 256. The order on strings used by \<^verbatim>\<open>sorted\<close> is the lexicographic
  order on code points (\<open>Char_ord\<close> with \<open>List_Lexorder\<close>).
\<close>

subsection \<open>Characters\<close>

abbreviation LF :: char where "LF \<equiv> CHR 0x0A"
abbreviation CR :: char where "CR \<equiv> CHR 0x0D"
abbreviation dquote :: char where "dquote \<equiv> CHR 0x22"
abbreviation squote :: char where "squote \<equiv> CHR 0x27"

text \<open>
  \<^verbatim>\<open>str.isspace\<close> on one character, which is also what \<^verbatim>\<open>\s\<close> matches in a
  \<^verbatim>\<open>str\<close> pattern; below code point 256 these are TAB, LF, VT, FF, CR, FS, GS, RS,
  US, space, NEL and NBSP.
\<close>

definition is_space :: "char \<Rightarrow> bool" where
  "is_space c = (let n = (of_char c :: nat) in
     (9 \<le> n \<and> n \<le> 13) \<or> (28 \<le> n \<and> n \<le> 32) \<or> n = 133 \<or> n = 160)"

text \<open>
  The line boundaries of \<^verbatim>\<open>str.splitlines\<close> below code point 256: LF, VT, FF, CR,
  FS, GS, RS and NEL. (Python also cuts at U+2028 and U+2029, which a character of the
  model cannot be.)
\<close>

definition is_linebreak :: "char \<Rightarrow> bool" where
  "is_linebreak c = (let n = (of_char c :: nat) in
     (10 \<le> n \<and> n \<le> 13) \<or> (28 \<le> n \<and> n \<le> 30) \<or> n = 133)"

text \<open>The character class \<^verbatim>\<open>[A-Za-z0-9_.-]\<close>.\<close>

definition is_alias_char :: "char \<Rightarrow> bool" where
  "is_alias_char c = (let n = (of_char c :: nat) in
     (65 \<le> n \<and> n \<le> 90) \<or> (97 \<le> n \<and> n \<le> 122) \<or> (48 \<le> n \<and> n \<le> 57)
     \<or> c = CHR ''_'' \<or> c = CHR ''.'' \<or> c = CHR ''-'')"

text \<open>\<^verbatim>\<open>\S\<close>, and the dot (no DOTALL flag is given: every character but LF).\<close>

definition non_space :: "char \<Rightarrow> bool" where
  "non_space c = (\<not> is_space c)"

definition dot :: "char \<Rightarrow> bool" where
  "dot c = (c \<noteq> LF)"

subsection \<open>String methods\<close>

definition lstrip :: "string \<Rightarrow> string" where
  "lstrip s = dropWhile is_space s"

definition rstrip :: "string \<Rightarrow> string" where
  "rstrip s = rev (dropWhile is_space (rev s))"

definition strip :: "string \<Rightarrow> string" where
  "strip s = lstrip (rstrip s)"

definition startswith :: "string \<Rightarrow> char \<Rightarrow> bool" where
  "startswith s c = (case s of [] \<Rightarrow> False | x # _ \<Rightarrow> x = c)"

definition endswith :: "string \<Rightarrow> char \<Rightarrow> bool" where
  "endswith s c = (case rev s of [] \<Rightarrow> False | x # _ \<Rightarrow> x = c)"

text \<open>
  \<^verbatim>\<open>_strip_quotes\<close>: the slice \<^verbatim>\<open>s[1:-1]\<close> drops the first and the last
  character, and is empty when \<open>s\<close> is a single quote character.
\<close>

definition strip_quotes :: "string \<Rightarrow> string" where
  "strip_quotes s0 = (let s = strip s0 in
     if (startswith s dquote \<and> endswith s dquote) \<or> (startswith s squote \<and> endswith s squote)
     then butlast (tl s) else s)"

text \<open>
  \<^verbatim>\<open>str.splitlines\<close>: the text is cut after every line boundary, CR LF counting as
  one; the boundaries are not kept, and a text that ends with a boundary has no empty
  last line. The first argument is the line read so far.
\<close>

fun splitlines_from :: "string \<Rightarrow> string \<Rightarrow> string list" where
  "splitlines_from cur [] = (if cur = [] then [] else [cur])"
| "splitlines_from cur (c # cs) =
     (if c = CR \<and> startswith cs LF then cur # splitlines_from [] (tl cs)
      else if is_linebreak c then cur # splitlines_from [] cs
      else splitlines_from (cur @ [c]) cs)"

definition splitlines :: "string \<Rightarrow> string list" where
  "splitlines text = splitlines_from [] text"

subsection \<open>Regular expressions\<close>

text \<open>
  Each pattern of the source is a sequence of single-character classes, each with a
  repetition range, greedy or lazy, one of them at most in a capturing group; the
  pattern ends with \<^verbatim>\<open>$\<close> and \<^verbatim>\<open>re.match\<close> anchors it at the start. \<open>Rep p lo hi g cap\<close>
  is the class \<open>p\<close> repeated \<open>lo\<close> to \<open>hi\<close> times (\<open>None\<close>: no upper bound), captured
  when \<open>cap\<close> holds.
\<close>

datatype greed = Greedy | Lazy

datatype item = Rep "char \<Rightarrow> bool" nat "nat option" greed bool

definition lit :: "char \<Rightarrow> item" where
  "lit c = Rep (\<lambda>x. x = c) 1 (Some 1) Greedy False"

definition lits :: "string \<Rightarrow> item list" where
  "lits s = map lit s"

definition star :: "(char \<Rightarrow> bool) \<Rightarrow> item" where
  "star p = Rep p 0 None Greedy False"

definition plus1 :: "(char \<Rightarrow> bool) \<Rightarrow> item" where
  "plus1 p = Rep p 1 None Greedy False"

definition exactly :: "nat \<Rightarrow> (char \<Rightarrow> bool) \<Rightarrow> item" where
  "exactly n p = Rep p n (Some n) Greedy False"

text \<open>\<^verbatim>\<open>$\<close> without MULTILINE: the end of the string, or just before a final LF.\<close>

definition at_end :: "string \<Rightarrow> bool" where
  "at_end s = (s = [] \<or> s = [LF])"

text \<open>
  The backtracking matcher tries the repetition counts of an item in the order of the
  engine, the largest first for a greedy item and the smallest first for a lazy one,
  and keeps the first count with which the rest of the pattern matches. The result is
  the text of the group (\<open>[]\<close> for a pattern without a group), \<open>None\<close> when the
  pattern does not match.
\<close>

primrec first_some :: "('a \<Rightarrow> 'b option) \<Rightarrow> 'a list \<Rightarrow> 'b option" where
  "first_some f [] = None"
| "first_some f (x # xs) = (case f x of Some y \<Rightarrow> Some y | None \<Rightarrow> first_some f xs)"

definition counts :: "nat \<Rightarrow> nat \<Rightarrow> greed \<Rightarrow> nat list" where
  "counts lo most g = (case g of Greedy \<Rightarrow> rev [lo..<Suc most] | Lazy \<Rightarrow> [lo..<Suc most])"

primrec re_match :: "item list \<Rightarrow> string \<Rightarrow> string option" where
  "re_match [] s = (if at_end s then Some [] else None)"
| "re_match (i # rest) s = (case i of Rep p lo hi g cap \<Rightarrow>
     (let n = length (takeWhile p s);
          most = (case hi of None \<Rightarrow> n | Some h \<Rightarrow> min h n)
      in first_some
           (\<lambda>k. case re_match rest (drop k s) of
                  None \<Rightarrow> None
                | Some grp \<Rightarrow> Some (if cap then take k s else grp))
           (counts lo most g)))"

text \<open>\<^verbatim>\<open>^\s*accounts\s*:\s*$\<close>\<close>

definition rx_accounts :: "item list" where
  "rx_accounts = [star is_space] @ lits ''accounts''
     @ [star is_space, lit CHR '':'', star is_space]"

text \<open>\<^verbatim>\<open>^[A-Za-z0-9_.-]+\s*:\s*$\<close>\<close>

definition rx_toplevel :: "item list" where
  "rx_toplevel = [plus1 is_alias_char, star is_space, lit CHR '':'', star is_space]"

text \<open>\<^verbatim>\<open>^\s{2}([A-Za-z0-9_.-]+)\s*:\s*$\<close>\<close>

definition rx_alias :: "item list" where
  "rx_alias = [exactly 2 is_space, Rep is_alias_char 1 None Greedy True,
     star is_space, lit CHR '':'', star is_space]"

text \<open>\<^verbatim>\<open>^\s{4}address\s*:\s*(.+?)\s*$\<close>\<close>

definition rx_addr :: "item list" where
  "rx_addr = [exactly 4 is_space] @ lits ''address''
     @ [star is_space, lit CHR '':'', star is_space, Rep dot 1 None Lazy True, star is_space]"

text \<open>\<^verbatim>\<open>^\s{4}private_key\s*:\s*(\S+)\s*$\<close>\<close>

definition rx_pk :: "item list" where
  "rx_pk = [exactly 4 is_space] @ lits ''private_key''
     @ [star is_space, lit CHR '':'', star is_space, Rep non_space 1 None Greedy True,
        star is_space]"

subsection \<open>Account dictionaries\<close>

text \<open>
  The inner dictionary of an alias only ever holds the keys \<^verbatim>\<open>"address"\<close> and
  \<^verbatim>\<open>"private_key"\<close>; it is a record of two optional strings, \<open>None\<close> for a key
  that is not in the dictionary. The outer dictionary is an association list in
  insertion order: \<open>map_of\<close> looks an alias up, \<open>AList.update\<close> assigns (in place
  for a key that is present, at the end for a new key).
\<close>

record fields =
  address :: "string option"
  private_key :: "string option"

type_synonym accounts = "(string \<times> fields) list"

definition no_fields :: fields where
  "no_fields = \<lparr>address = None, private_key = None\<rparr>"

text \<open>\<^verbatim>\<open>d.get(key) or ""\<close>\<close>

definition or_empty :: "string option \<Rightarrow> string" where
  "or_empty v = (case v of None \<Rightarrow> [] | Some s \<Rightarrow> s)"

text \<open>\<^verbatim>\<open>d.get("address") or d.get("private_key")\<close>, as a truth value.\<close>

definition has_field :: "string \<times> fields \<Rightarrow> bool" where
  "has_field e = (or_empty (address (snd e)) \<noteq> [] \<or> or_empty (private_key (snd e)) \<noteq> [])"

datatype error = KeyError | FileNotFoundError | RuntimeError | IsADirectoryError

subsection \<open>parse_accounts_accounts_section\<close>

text \<open>The first loop: the index of the first line that matches the anchor pattern.\<close>

primrec find_start :: "string list \<Rightarrow> nat option" where
  "find_start [] = None"
| "find_start (line # rest) =
     (if re_match rx_accounts line \<noteq> None then Some 0 else map_option Suc (find_start rest))"

text \<open>
  One turn of the second loop on the state (\<open>accounts\<close>, \<open>current_alias\<close>):
  \<open>Stop\<close> is the \<^verbatim>\<open>break\<close>, \<open>Next\<close> every \<^verbatim>\<open>continue\<close> and the end of the body,
  \<open>Raise\<close> the KeyError of \<^verbatim>\<open>accounts[current_alias]\<close> for an alias that is not a key.
\<close>

datatype outcome = Stop | Next accounts string | Raise error

definition set_field ::
  "accounts \<Rightarrow> string \<Rightarrow> (fields \<Rightarrow> fields) \<Rightarrow> outcome" where
  "set_field accs cur f = (case map_of accs cur of
       None \<Rightarrow> Raise KeyError
     | Some d \<Rightarrow> Next (AList.update cur (f d) accs) cur)"

definition scan_line :: "accounts \<Rightarrow> string \<Rightarrow> string \<Rightarrow> outcome" where
  "scan_line accs cur line =
     (if re_match rx_toplevel line \<noteq> None \<and> \<not> startswith line CHR '' '' then Stop
      else (case re_match rx_alias line of
        Some a \<Rightarrow> Next (if map_of accs a = None then AList.update a no_fields accs else accs) a
      | None \<Rightarrow>
          (if cur = [] then Next accs cur
           else (case re_match rx_addr line of
             Some g \<Rightarrow> set_field accs cur (\<lambda>d. d\<lparr>address := Some (strip_quotes g)\<rparr>)
           | None \<Rightarrow>
               (case re_match rx_pk line of
                  Some g \<Rightarrow> set_field accs cur (\<lambda>d. d\<lparr>private_key := Some (strip_quotes g)\<rparr>)
                | None \<Rightarrow> Next accs cur)))))"

fun scan_lines :: "accounts \<Rightarrow> string \<Rightarrow> string list \<Rightarrow> error + accounts" where
  "scan_lines accs cur [] = Inr accs"
| "scan_lines accs cur (line # rest) = (case scan_line accs cur line of
       Stop \<Rightarrow> Inr accs
     | Raise e \<Rightarrow> Inl e
     | Next accs' cur' \<Rightarrow> scan_lines accs' cur' rest)"

definition parse_accounts_accounts_section :: "string \<Rightarrow> error + accounts" where
  "parse_accounts_accounts_section text = (let lines = splitlines text in
     case find_start lines of
       None \<Rightarrow> Inr []
     | Some start \<Rightarrow>
         (case scan_lines [] [] (drop (start + 1) lines) of
            Inl e \<Rightarrow> Inl e
          | Inr accs \<Rightarrow> Inr (filter has_field accs)))"

subsection \<open>write_pk_yaml\<close>

definition header_line :: string where
  "header_line =
     ''# IMPORTANT: This file contains PRIVATE KEYS. KEEP IT SECRET. DO NOT COMMIT.'' @ [LF]"

definition alias_lines :: "string \<Rightarrow> fields \<Rightarrow> string list" where
  "alias_lines alias d =
     (let addr = strip (or_empty (address d));
          pk = strip (or_empty (private_key d))
      in [''  '' @ alias @ '':'' @ [LF]]
         @ (if addr \<noteq> [] then [''    address: '' @ [dquote] @ addr @ [dquote] @ [LF]] else [])
         @ (if pk \<noteq> [] then [''    private_key: '' @ pk @ [LF]] else []))"

text \<open>
  The list \<^verbatim>\<open>lines\<close> of the source. \<open>alias\<close> runs over the keys of the dictionary,
  so \<^verbatim>\<open>accounts[alias]\<close> is always there.
\<close>

definition pk_lines :: "accounts \<Rightarrow> string list" where
  "pk_lines accs = [header_line, ''accounts:'' @ [LF]]
     @ concat (map (\<lambda>alias. case map_of accs alias of
                               None \<Rightarrow> []
                             | Some d \<Rightarrow> alias_lines alias d)
                   (sort (map fst accs)))"

text \<open>The text that \<^verbatim>\<open>write_pk_yaml\<close> writes to pk.txt: \<^verbatim>\<open>"".join(lines)\<close>.\<close>

definition write_pk_yaml :: "accounts \<Rightarrow> string" where
  "write_pk_yaml accs = concat (pk_lines accs)"

subsection \<open>sync_config_to_pk\<close>




record report =
  added :: nat
  filled :: nat
  mismatches :: nat


text \<open>
  The body of the loop over \<^verbatim>\<open>cfg_accounts.items()\<close>. The test
  \<^verbatim>\<open>alias not in pk_accounts\<close> and the reads of \<^verbatim>\<open>pk_accounts[alias]\<close> that follow it
  are one lookup; \<open>d1\<close> and \<open>d2\<close> are the entry after the first and the second fill.
\<close>

definition sync_entry :: "string \<times> fields \<Rightarrow> accounts \<times> report \<Rightarrow> accounts \<times> report" where
  "sync_entry e st = (case e of (alias, d) \<Rightarrow> case st of (pk_accounts, r) \<Rightarrow>
     (let cfg_addr = strip (or_empty (address d));
          cfg_pk = strip (or_empty (private_key d))
      in case map_of pk_accounts alias of
           None \<Rightarrow>
             (AList.update alias \<lparr>address = Some cfg_addr, private_key = Some cfg_pk\<rparr> pk_accounts,
              r\<lparr>added := added r + 1\<rparr>)
         | Some d0 \<Rightarrow>
             (let pk_addr = strip (or_empty (address d0));
                  pk_priv = strip (or_empty (private_key d0));
                  fill_addr = (pk_addr = [] \<and> cfg_addr \<noteq> []);
                  d1 = (if fill_addr then d0\<lparr>address := Some cfg_addr\<rparr> else d0);
                  fill_pk = (pk_priv = [] \<and> cfg_pk \<noteq> []);
                  d2 = (if fill_pk then d1\<lparr>private_key := Some cfg_pk\<rparr> else d1);
                  pk_addr2 = strip (or_empty (address d2));
                  pk_priv2 = strip (or_empty (private_key d2));
                  mis_addr = (cfg_addr \<noteq> [] \<and> pk_addr2 \<noteq> [] \<and> cfg_addr \<noteq> pk_addr2);
                  mis_pk = (cfg_pk \<noteq> [] \<and> pk_priv2 \<noteq> [] \<and> cfg_pk \<noteq> pk_priv2)
              in (if fill_addr \<or> fill_pk then AList.update alias d2 pk_accounts else pk_accounts,
                  r\<lparr>filled := filled r + (if fill_addr then 1 else 0) + (if fill_pk then 1 else 0),
                    mismatches := mismatches r + (if mis_addr then 1 else 0)
                      + (if mis_pk then 1 else 0)\<rparr>))))"

definition no_report :: report where
  "no_report = \<lparr>added = 0, filled = 0, mismatches = 0\<rparr>"

text \<open>The whole loop, from the counters at zero.\<close>

definition reconcile :: "accounts \<Rightarrow> accounts \<Rightarrow> accounts \<times> report" where
  "reconcile cfg_accounts pk_accounts = fold sync_entry cfg_accounts (pk_accounts, no_report)"


subsection \<open>The merge, entry by entry\<close>

text \<open>
  What the loop of the sync does to one alias, said without the loop: a value counts
  as missing when it is empty once trimmed; a missing destination value is filled with
  the trimmed source value; the two differ when both trimmed values are there and are
  not the same text.
\<close>

definition trimmed :: "string option \<Rightarrow> string" where
  "trimmed v = strip (or_empty v)"

definition fills :: "string option \<Rightarrow> string option \<Rightarrow> bool" where
  "fills src dst = (trimmed dst = [] \<and> trimmed src \<noteq> [])"

definition after_fill :: "string option \<Rightarrow> string option \<Rightarrow> string option" where
  "after_fill src dst = (if fills src dst then Some (trimmed src) else dst)"

definition differs :: "string option \<Rightarrow> string option \<Rightarrow> bool" where
  "differs src dst = (trimmed src \<noteq> [] \<and> trimmed dst \<noteq> [] \<and> trimmed src \<noteq> trimmed dst)"

definition merged_entry :: "fields \<Rightarrow> fields option \<Rightarrow> fields" where
  "merged_entry d old = (case old of
       None \<Rightarrow> \<lparr>address = Some (trimmed (address d)), private_key = Some (trimmed (private_key d))\<rparr>
     | Some d0 \<Rightarrow> \<lparr>address = after_fill (address d) (address d0),
                   private_key = after_fill (private_key d) (private_key d0)\<rparr>)"

definition entry_fills :: "fields \<Rightarrow> fields option \<Rightarrow> nat" where
  "entry_fills d old = (case old of
       None \<Rightarrow> 0
     | Some d0 \<Rightarrow> (if fills (address d) (address d0) then 1 else 0)
                 + (if fills (private_key d) (private_key d0) then 1 else 0))"

definition entry_mismatches :: "fields \<Rightarrow> fields option \<Rightarrow> nat" where
  "entry_mismatches d old = (case old of
       None \<Rightarrow> 0
     | Some d0 \<Rightarrow>
         (if differs (address d) (after_fill (address d) (address d0)) then 1 else 0)
       + (if differs (private_key d) (after_fill (private_key d) (private_key d0)) then 1 else 0))"

text \<open>An entry of the source that a run of the loop would neither add nor fill.\<close>

definition settled :: "string \<times> fields \<Rightarrow> accounts \<Rightarrow> bool" where
  "settled e R = (case map_of R (fst e) of
       None \<Rightarrow> False
     | Some d0 \<Rightarrow> \<not> fills (address (snd e)) (address d0)
                 \<and> \<not> fills (private_key (snd e)) (private_key d0))"

subsection \<open>Shapes of lines\<close>

text \<open>
  The end of a key line, said with the string functions: white space, a colon, and
  white space up to the end.
\<close>

definition colon_tail :: "string \<Rightarrow> bool" where
  "colon_tail u = (case lstrip u of [] \<Rightarrow> False | x # xs \<Rightarrow> x = CHR '':'' \<and> list_all is_space xs)"

text \<open>
  A line made of white space, the key \<open>accounts\<close> and the end of a key line.
\<close>

definition is_anchor :: "string \<Rightarrow> bool" where
  "is_anchor line = (let r = lstrip line in
     take 8 r = ''accounts'' \<and> colon_tail (drop 8 r))"

text \<open>
  The invariant of the second loop of the parser: the current alias is empty or a key
  of the dictionary, and no alias is there twice.
\<close>

definition scan_inv :: "accounts \<Rightarrow> string \<Rightarrow> bool" where
  "scan_inv accs cur = (distinct (map fst accs) \<and> (cur = [] \<or> cur \<in> fst ` set accs))"

text \<open>A line that ends the section: the condition of the \<^verbatim>\<open>break\<close>.\<close>

definition ends_section :: "string \<Rightarrow> bool" where
  "ends_section line = (re_match rx_toplevel line \<noteq> None \<and> \<not> startswith line CHR '' '')"

text \<open>A line that none of the four tests of the loop body recognizes.\<close>

definition unrecognized :: "string \<Rightarrow> bool" where
  "unrecognized line = (\<not> ends_section line \<and> re_match rx_alias line = None
     \<and> re_match rx_addr line = None \<and> re_match rx_pk line = None)"

text \<open>The indentation of a line: the number of white space characters it starts with.\<close>

definition indent :: "string \<Rightarrow> nat" where
  "indent line = length (takeWhile is_space line)"

subsection \<open>Repeated field lines\<close>

text \<open>
  The two fields, what the loop body takes as a line of each (the private key test is
  only reached when the address test fails), and the field of an entry.
\<close>

datatype field = Address | PrivateKey

definition field_match :: "field \<Rightarrow> string \<Rightarrow> string option" where
  "field_match f line = (case f of
       Address \<Rightarrow> re_match rx_addr line
     | PrivateKey \<Rightarrow> (case re_match rx_addr line of
                        Some g \<Rightarrow> None
                      | None \<Rightarrow> re_match rx_pk line))"

definition get_field :: "field \<Rightarrow> fields \<Rightarrow> string option" where
  "get_field f d = (case f of Address \<Rightarrow> address d | PrivateKey \<Rightarrow> private_key d)"

text \<open>
  The alias that is current after a run of lines of the section, starting from the
  alias \<open>cur\<close>; \<open>None\<close> when one of the lines ends the section.
\<close>

fun current_after :: "string \<Rightarrow> string list \<Rightarrow> string option" where
  "current_after cur [] = Some cur"
| "current_after cur (line # rest) =
     (if ends_section line then None
      else (case re_match rx_alias line of
              Some a \<Rightarrow> current_after a rest
            | None \<Rightarrow> current_after cur rest))"

text \<open>
  Whether one of the lines, read from the current alias \<open>cur\<close> on and before the
  section ends, is a line of the field \<open>f\<close> in a block of the alias \<open>a\<close>.
\<close>

fun set_later :: "field \<Rightarrow> string \<Rightarrow> string \<Rightarrow> string list \<Rightarrow> bool" where
  "set_later f a cur [] = False"
| "set_later f a cur (line # rest) =
     (if ends_section line then False
      else (case re_match rx_alias line of
              Some b \<Rightarrow> set_later f a b rest
            | None \<Rightarrow> (cur = a \<and> a \<noteq> [] \<and> field_match f line \<noteq> None)
                      \<or> set_later f a cur rest))"

subsection \<open>Dictionaries that survive a round trip\<close>


text \<open>
  An alias is a non-empty token of the alias characters. An address is not empty, has
  no white space at either end, is on one line (no character at which
  \<^verbatim>\<open>splitlines\<close> cuts) and is not quoted. A private key is not empty, has no white
  space anywhere and is not quoted. An account has at least one of the two fields,
  and a dictionary has no alias twice.
\<close>

definition valid_alias :: "string \<Rightarrow> bool" where
  "valid_alias a = (a \<noteq> [] \<and> list_all is_alias_char a)"







section \<open>The matcher\<close>

lemma first_some_None: "(\<And>x. x \<in> set xs \<Longrightarrow> f x = None) \<Longrightarrow> first_some f xs = None"
  by (induction xs) simp_all


lemma first_some_SomeD: "first_some f xs = Some y \<Longrightarrow> \<exists>x \<in> set xs. f x = Some y"
  by (induction xs) (auto split: option.splits)

lemma takeWhile_P_nth: "k < length (takeWhile p s) \<Longrightarrow> p (s ! k)"
  by (metis nth_mem set_takeWhileD takeWhile_nth)

lemma drop_in_run:
  "k < length (takeWhile p s) \<Longrightarrow> \<exists>t. drop k s = (s ! k) # t \<and> p (s ! k)"
proof -
  assume k: "k < length (takeWhile p s)"
  have "length (takeWhile p s) \<le> length s" by (rule length_takeWhile_le)
  then have "k < length s" using k by simp
  then show ?thesis using k by (metis Cons_nth_drop_Suc takeWhile_P_nth)
qed

lemma re_match_lit:
  "re_match (lit c # rest) s =
     (case s of [] \<Rightarrow> None | x # xs \<Rightarrow> if x = c then re_match rest xs else None)"
proof (cases s)
  case Nil
  then show ?thesis by (simp add: lit_def counts_def)
next
  case (Cons x xs)
  then show ?thesis
    by (cases "x = c") (simp_all add: lit_def counts_def split: option.split)
qed

declare re_match.simps(2) [simp del]

lemma re_match_lits:
  "re_match (lits w @ rest) s =
     (if take (length w) s = w then re_match rest (drop (length w) s) else None)"
proof (induction w arbitrary: s)
  case Nil
  then show ?case by (simp add: lits_def)
next
  case (Cons c w)
  have e: "lits (c # w) @ rest = lit c # (lits w @ rest)"
    by (simp add: lits_def)
  show ?case unfolding e re_match_lit using Cons
    by (cases s) auto
qed

lemma re_match_Rep:
  "re_match (Rep p lo hi g cap # rest) s =
     first_some
       (\<lambda>k. case re_match rest (drop k s) of
              None \<Rightarrow> None
            | Some grp \<Rightarrow> Some (if cap then take k s else grp))
       (counts lo (case hi of None \<Rightarrow> length (takeWhile p s)
                            | Some h \<Rightarrow> min h (length (takeWhile p s))) g)"
  by (simp add: re_match.simps(2) Let_def)

lemma counts_exactly:
  "counts n (min n m) Greedy = (if n \<le> m then [n] else [])"
  by (simp add: counts_def min_def)

lemma re_match_exactly:
  "re_match (exactly n p # rest) s =
     (if n \<le> length (takeWhile p s) then re_match rest (drop n s) else None)"
  unfolding exactly_def re_match_Rep option.case counts_exactly
  by (simp split: option.split)

lemma counts_greedy: "lo \<le> n \<Longrightarrow> counts lo n Greedy = n # rev [lo..<n]"
  by (simp add: counts_def)

lemma counts_greedy_none: "\<not> lo \<le> n \<Longrightarrow> counts lo n Greedy = []"
  by (simp add: counts_def)

lemma re_match_greedy_first:
  assumes "lo \<le> length (takeWhile p s)" and "re_match rest (dropWhile p s) = Some grp"
  shows "re_match (Rep p lo None Greedy cap # rest) s
           = Some (if cap then takeWhile p s else grp)"
proof -
  let ?n = "length (takeWhile p s)"
  have d: "drop ?n s = dropWhile p s" "take ?n s = takeWhile p s"
    by (rule dropWhile_eq_drop[symmetric], rule takeWhile_eq_take[symmetric])
  show ?thesis
    unfolding re_match_Rep option.case counts_greedy[OF assms(1)] first_some.simps d assms(2)
    by simp
qed

lemma re_match_greedy_only:
  assumes "\<And>k. k < length (takeWhile p s) \<Longrightarrow> re_match rest (drop k s) = None"
  shows "re_match (Rep p lo None Greedy cap # rest) s =
     (if lo \<le> length (takeWhile p s)
      then (case re_match rest (dropWhile p s) of
              None \<Rightarrow> None
            | Some grp \<Rightarrow> Some (if cap then takeWhile p s else grp))
      else None)"
proof -
  let ?n = "length (takeWhile p s)"
  let ?f = "\<lambda>k. case re_match rest (drop k s) of
                  None \<Rightarrow> None
                | Some grp \<Rightarrow> Some (if cap then take k s else grp)"
  have d: "drop ?n s = dropWhile p s" "take ?n s = takeWhile p s"
    by (rule dropWhile_eq_drop[symmetric], rule takeWhile_eq_take[symmetric])
  show ?thesis
  proof (cases "lo \<le> ?n")
    case True
    have "first_some ?f (rev [lo..<?n]) = None"
      by (rule first_some_None) (simp add: assms)
    then show ?thesis
      unfolding re_match_Rep option.case counts_greedy[OF True] first_some.simps d
      using True by (simp split: option.split)
  next
    case False
    show ?thesis
      unfolding re_match_Rep option.case counts_greedy_none[OF False]
      using False by simp
  qed
qed

lemma re_match_lit_in_run:
  assumes "k < length (takeWhile p s)" and "\<not> p c"
  shows "re_match (lit c # rest) (drop k s) = None"
proof -
  obtain t where t: "drop k s = (s ! k) # t" "p (s ! k)"
    using drop_in_run[OF assms(1)] by blast
  then have "s ! k \<noteq> c" using assms(2) by blast
  then show ?thesis by (simp add: re_match_lit t(1))
qed

lemma re_match_star_lit:
  "\<not> p c \<Longrightarrow> re_match (star p # lit c # rest) s =
     (case dropWhile p s of [] \<Rightarrow> None | x # xs \<Rightarrow> if x = c then re_match rest xs else None)"
proof -
  assume np: "\<not> p c"
  have "re_match (Rep p 0 None Greedy False # lit c # rest) s =
     (if 0 \<le> length (takeWhile p s)
      then (case re_match (lit c # rest) (dropWhile p s) of
              None \<Rightarrow> None
            | Some grp \<Rightarrow> Some (if False then takeWhile p s else grp))
      else None)"
    by (rule re_match_greedy_only) (simp add: re_match_lit_in_run np)
  then show ?thesis
    by (simp add: star_def re_match_lit split: option.split list.split)
qed

lemma re_match_star_end:
  "re_match [star is_space] s = (if list_all is_space s then Some [] else None)"
proof (cases "list_all is_space s")
  case True
  then have t: "takeWhile is_space s = s" "dropWhile is_space s = []"
    by (simp_all add: list_all_iff)
  show ?thesis unfolding star_def
    using True re_match_greedy_first[of 0 is_space s "[]" "[]" False]
    by (simp add: t at_end_def)
next
  case False
  have sp: "is_space LF" by (simp add: is_space_def)
  have key: "re_match [] (drop k s) = None" if "k \<le> length (takeWhile is_space s)" for k
  proof -
    have "dropWhile is_space s \<noteq> []" using False by (simp add: list_all_iff)
    then obtain x t where xt: "dropWhile is_space s = x # t" "\<not> is_space x"
      by (metis dropWhile_eq_Cons_conv list.exhaust)
    have "drop k s = drop k (takeWhile is_space s) @ x # t"
      using that xt by (metis drop_append takeWhile_dropWhile_id diff_is_0_eq drop0)
    then have "x \<in> set (drop k s)" by simp
    then have "drop k s \<noteq> [] \<and> drop k s \<noteq> [LF]" using xt sp by auto
    then show ?thesis by (simp add: at_end_def)
  qed
  have last: "re_match [] (dropWhile is_space s) = None"
    using key[of "length (takeWhile is_space s)"] dropWhile_eq_drop[of is_space s] by simp
  have "re_match (Rep is_space 0 None Greedy False # []) s = None"
    by (subst re_match_greedy_only) (simp_all add: key last del: re_match.simps)
  then show ?thesis using False by (simp add: star_def)
qed

lemma not_space_colon: "\<not> is_space CHR '':''"
  by (simp add: is_space_def)

lemma re_match_colon_tail:
  "re_match [star is_space, lit CHR '':'', star is_space] u = (if colon_tail u then Some [] else None)"
proof (cases "dropWhile is_space u")
  case Nil
  then show ?thesis
    by (simp add: re_match_star_lit not_space_colon colon_tail_def lstrip_def del: dropWhile_eq_Nil_conv)
next
  case (Cons x xs)
  then show ?thesis
    by (simp add: re_match_star_lit not_space_colon re_match_star_end colon_tail_def lstrip_def)
qed

lemma re_match_Rep_SomeD:
  assumes "re_match (Rep p lo hi g cap # rest) s = Some x"
  shows "\<exists>k grp. lo \<le> k \<and> k \<le> length (takeWhile p s) \<and> (\<forall>h. hi = Some h \<longrightarrow> k \<le> h)
           \<and> re_match rest (drop k s) = Some grp \<and> x = (if cap then take k s else grp)"
proof -
  obtain k where k: "k \<in> set (counts lo (case hi of None \<Rightarrow> length (takeWhile p s)
                            | Some h \<Rightarrow> min h (length (takeWhile p s))) g)"
      and f: "(case re_match rest (drop k s) of
              None \<Rightarrow> None
            | Some grp \<Rightarrow> Some (if cap then take k s else grp)) = Some x"
    using assms first_some_SomeD unfolding re_match_Rep by fast
  have "lo \<le> k \<and> k \<le> length (takeWhile p s) \<and> (\<forall>h. hi = Some h \<longrightarrow> k \<le> h)"
    using k by (cases g; cases hi) (auto simp: counts_def)
  then show ?thesis using f by (auto split: option.splits)
qed

lemma re_match_star_lits:
  assumes "w \<noteq> []" and "\<not> p (hd w)"
  shows "re_match (star p # lits w @ rest) s =
     (if take (length w) (dropWhile p s) = w
      then re_match rest (drop (length w) (dropWhile p s)) else None)"
proof -
  obtain c w' where w: "w = c # w'" using assms(1) by (cases w) auto
  have e: "lits w @ rest = lit c # (lits w' @ rest)" by (simp add: w lits_def)
  have "re_match (star p # lits w @ rest) s = 
     (case dropWhile p s of [] \<Rightarrow> None | x # xs \<Rightarrow> if x = c then re_match (lits w' @ rest) xs else None)"
    unfolding e using assms(2) w by (simp add: re_match_star_lit)
  then show ?thesis
    by (cases "dropWhile p s") (auto simp: w re_match_lits simp del: dropWhile_eq_Nil_conv)
qed

lemma rx_accounts_eq: "re_match rx_accounts l = (if is_anchor l then Some [] else None)"
proof -
  let ?tail = "[star is_space, lit CHR '':'', star is_space]"
  have e: "rx_accounts = star is_space # lits ''accounts'' @ ?tail"
    by (simp add: rx_accounts_def)
  have len: "length ''accounts'' = 8" by simp
  have "re_match rx_accounts l =
     (if take (length ''accounts'') (dropWhile is_space l) = ''accounts''
      then re_match ?tail (drop (length ''accounts'') (dropWhile is_space l)) else None)"
    unfolding e by (rule re_match_star_lits) (simp_all add: is_space_def)
  then show ?thesis
    unfolding len re_match_colon_tail by (simp add: is_anchor_def lstrip_def)
qed

lemma takeWhile_length_ge:
  "n \<le> length (takeWhile p s) \<Longrightarrow> n < length s \<Longrightarrow> \<not> p (s ! n) \<Longrightarrow> length (takeWhile p s) = n"
  by (metis takeWhile_P_nth le_neq_implies_less)

lemma indent_exact:
  assumes "n \<le> length (takeWhile is_space l)" and "drop n l = x # t" and "\<not> is_space x"
  shows "length (takeWhile is_space l) = n"
proof -
  have "n < length l" using assms(2) by (metis drop_all list.distinct(1) not_le)
  moreover have "l ! n = x" using assms(2) by (metis Cons_nth_drop_Suc calculation list.inject)
  ultimately show ?thesis using assms takeWhile_length_ge by blast
qed

lemma alias_not_space: "is_alias_char c \<Longrightarrow> \<not> is_space c"
  by (auto simp: is_alias_char_def is_space_def Let_def)

lemma alias_not_colon: "\<not> is_alias_char CHR '':''"
  by (simp add: is_alias_char_def)

lemma colon_tail_in_run:
  assumes "k < length (takeWhile is_alias_char t)"
  shows "re_match [star is_space, lit CHR '':'', star is_space] (drop k t) = None"
proof -
  obtain r where r: "drop k t = (t ! k) # r" "is_alias_char (t ! k)"
    using drop_in_run[OF assms] by blast
  have "\<not> is_space (t ! k)" "t ! k \<noteq> CHR '':''"
    using r(2) alias_not_space alias_not_colon by auto
  then show ?thesis
    by (simp add: re_match_colon_tail colon_tail_def lstrip_def r(1))
qed

lemma re_match_alias_name:
  "re_match (Rep is_alias_char lo None Greedy cap # [star is_space, lit CHR '':'', star is_space]) t =
     (if lo \<le> length (takeWhile is_alias_char t) \<and> colon_tail (dropWhile is_alias_char t)
      then Some (if cap then takeWhile is_alias_char t else []) else None)"
proof -
  let ?tail = "[star is_space, lit CHR '':'', star is_space]"
  have "re_match (Rep is_alias_char lo None Greedy cap # ?tail) t =
     (if lo \<le> length (takeWhile is_alias_char t)
      then (case re_match ?tail (dropWhile is_alias_char t) of
              None \<Rightarrow> None
            | Some grp \<Rightarrow> Some (if cap then takeWhile is_alias_char t else grp))
      else None)"
    by (rule re_match_greedy_only) (rule colon_tail_in_run)
  then show ?thesis by (simp add: re_match_colon_tail)
qed

lemma rx_toplevel_eq:
  "re_match rx_toplevel l =
     (if takeWhile is_alias_char l \<noteq> [] \<and> colon_tail (dropWhile is_alias_char l)
      then Some [] else None)"
  unfolding rx_toplevel_def plus1_def re_match_alias_name
  by (cases "takeWhile is_alias_char l") simp_all

lemma rx_alias_eq:
  "re_match rx_alias l =
     (if 2 \<le> length (takeWhile is_space l) \<and> takeWhile is_alias_char (drop 2 l) \<noteq> []
         \<and> colon_tail (dropWhile is_alias_char (drop 2 l))
      then Some (takeWhile is_alias_char (drop 2 l)) else None)"
  unfolding rx_alias_def re_match_exactly re_match_alias_name
  by (cases "takeWhile is_alias_char (drop 2 l)") simp_all

lemma takeWhile_hd: "takeWhile p s \<noteq> [] \<Longrightarrow> \<exists>x t. s = x # t \<and> p x"
  by (cases s) (auto split: if_splits)

lemma rx_alias_indent:
  assumes "re_match rx_alias l = Some a"
  shows "length (takeWhile is_space l) = 2 \<and> a \<noteq> [] \<and> list_all is_alias_char a"
proof -
  have c: "2 \<le> length (takeWhile is_space l)" "takeWhile is_alias_char (drop 2 l) \<noteq> []"
      "a = takeWhile is_alias_char (drop 2 l)"
    using assms unfolding rx_alias_eq by (auto split: if_splits)
  obtain x t where x: "drop 2 l = x # t" "is_alias_char x"
    using takeWhile_hd[OF c(2)] by blast
  have "length (takeWhile is_space l) = 2"
    using indent_exact[OF c(1) x(1)] alias_not_space[OF x(2)] by simp
  moreover have "list_all is_alias_char a"
    unfolding c(3) list_all_iff using set_takeWhileD by fast
  ultimately show ?thesis using c by simp
qed

lemma rx_toplevel_hd:
  "re_match rx_toplevel l \<noteq> None \<Longrightarrow> \<exists>x t. l = x # t \<and> is_alias_char x"
  unfolding rx_toplevel_eq using takeWhile_hd by (auto split: if_splits)




lemma rx_addr_eq:
  "re_match rx_addr l =
     (if 4 \<le> length (takeWhile is_space l) \<and> take 7 (drop 4 l) = ''address''
      then (case dropWhile is_space (drop 11 l) of
              [] \<Rightarrow> None
            | x # xs \<Rightarrow> if x = CHR '':''
                then re_match [star is_space, Rep dot 1 None Lazy True, star is_space] xs
                else None)
      else None)"
proof -
  let ?tail = "lit CHR '':'' # [star is_space, Rep dot 1 None Lazy True, star is_space]"
  have e: "rx_addr = exactly 4 is_space # lits ''address'' @ star is_space # ?tail"
    by (simp add: rx_addr_def)
  have len: "length ''address'' = 7" by simp
  show ?thesis
    unfolding e re_match_exactly re_match_lits len re_match_star_lit[of is_space "CHR '':''", OF not_space_colon]
    by simp
qed

lemma rx_pk_eq:
  "re_match rx_pk l =
     (if 4 \<le> length (takeWhile is_space l) \<and> take 11 (drop 4 l) = ''private_key''
      then (case dropWhile is_space (drop 15 l) of
              [] \<Rightarrow> None
            | x # xs \<Rightarrow> if x = CHR '':''
                then re_match [star is_space, Rep non_space 1 None Greedy True, star is_space] xs
                else None)
      else None)"
proof -
  let ?tail = "lit CHR '':'' # [star is_space, Rep non_space 1 None Greedy True, star is_space]"
  have e: "rx_pk = exactly 4 is_space # lits ''private_key'' @ star is_space # ?tail"
    by (simp add: rx_pk_def)
  have len: "length ''private_key'' = 11" by simp
  show ?thesis
    unfolding e re_match_exactly re_match_lits len re_match_star_lit[of is_space "CHR '':''", OF not_space_colon]
    by simp
qed

lemma rx_addr_indent:
  assumes "re_match rx_addr l = Some g"
  shows "length (takeWhile is_space l) = 4"
proof -
  have c: "4 \<le> length (takeWhile is_space l)" "take 7 (drop 4 l) = ''address''"
    using assms unfolding rx_addr_eq by (auto split: if_splits)
  obtain t where "drop 4 l = CHR ''a'' # t"
    using c(2) by (cases "drop 4 l") auto
  then show ?thesis using indent_exact[OF c(1)] by (simp add: is_space_def)
qed

lemma rx_pk_indent:
  assumes "re_match rx_pk l = Some g"
  shows "length (takeWhile is_space l) = 4"
proof -
  have c: "4 \<le> length (takeWhile is_space l)" "take 11 (drop 4 l) = ''private_key''"
    using assms unfolding rx_pk_eq by (auto split: if_splits)
  obtain t where "drop 4 l = CHR ''p'' # t"
    using c(2) by (cases "drop 4 l") auto
  then show ?thesis using indent_exact[OF c(1)] by (simp add: is_space_def)
qed

lemma space_space: "is_space CHR '' ''"
  by (simp add: is_space_def)




lemma scan_inv_empty: "scan_inv [] []"
  by (simp add: scan_inv_def)

lemma set_field_inv:
  assumes "scan_inv accs cur" and "cur \<noteq> []"
  shows "\<exists>accs'. set_field accs cur f = Next accs' cur \<and> scan_inv accs' cur"
proof -
  have "map_of accs cur \<noteq> None"
    using assms by (simp add: scan_inv_def map_of_eq_None_iff)
  then obtain d where d: "map_of accs cur = Some d" by blast
  have "scan_inv (AList.update cur (f d) accs) cur"
    using assms(1) by (simp add: scan_inv_def distinct_update dom_update)
  then show ?thesis using d by (simp add: set_field_def)
qed

lemma scan_line_inv:
  assumes "scan_inv accs cur"
  shows "scan_line accs cur l = Stop
       \<or> (\<exists>accs' cur'. scan_line accs cur l = Next accs' cur' \<and> scan_inv accs' cur')"
proof (cases "re_match rx_toplevel l \<noteq> None \<and> \<not> startswith l CHR '' ''")
  case True
  then show ?thesis by (simp add: scan_line_def)
next
  case False
  note nostop = False
  show ?thesis
  proof (cases "re_match rx_alias l")
    case (Some a)
    have new: "scan_inv (AList.update a no_fields accs) a"
      using assms by (simp add: scan_inv_def distinct_update dom_update)
    have old: "map_of accs a \<noteq> None \<Longrightarrow> scan_inv accs a"
      using assms by (simp add: scan_inv_def map_of_eq_None_iff)
    show ?thesis using nostop Some new old
      by (cases "map_of accs a = None") (simp_all add: scan_line_def)
  next
    case None
    show ?thesis
    proof (cases "cur = []")
      case True
      then show ?thesis using nostop None assms by (simp add: scan_line_def)
    next
      case False
      show ?thesis
        using nostop None False assms set_field_inv[OF assms False]
        by (simp add: scan_line_def split: option.split) blast
    qed
  qed
qed

lemma scan_lines_total:
  "scan_inv accs cur \<Longrightarrow> \<exists>accs'. scan_lines accs cur ls = Inr accs' \<and> distinct (map fst accs')"
proof (induction ls arbitrary: accs cur)
  case Nil
  then show ?case by (simp add: scan_inv_def)
next
  case (Cons l ls)
  from scan_line_inv[OF Cons.prems, of l] show ?case
  proof
    assume "scan_line accs cur l = Stop"
    then show ?thesis using Cons.prems by (simp add: scan_inv_def)
  next
    assume "\<exists>accs' cur'. scan_line accs cur l = Next accs' cur' \<and> scan_inv accs' cur'"
    then obtain accs' cur' where n: "scan_line accs cur l = Next accs' cur'" "scan_inv accs' cur'"
      by blast
    show ?thesis using Cons.IH[OF n(2)] n(1) by simp
  qed
qed

lemma parse_total:
  "\<exists>accs. parse_accounts_accounts_section text = Inr accs \<and> distinct (map fst accs)
      \<and> list_all has_field accs"
proof (cases "find_start (splitlines text)")
  case None
  then show ?thesis by (simp add: parse_accounts_accounts_section_def)
next
  case (Some start)
  obtain accs where a: "scan_lines [] [] (drop (start + 1) (splitlines text)) = Inr accs"
      "distinct (map fst accs)"
    using scan_lines_total[OF scan_inv_empty] by blast
  have "distinct (map fst (filter has_field accs))"
    using a(2) by (simp add: distinct_map_filter)
  then show ?thesis using Some a(1)
    by (simp add: parse_accounts_accounts_section_def list_all_iff)
qed

lemma scan_line_unrecognized: "unrecognized l \<Longrightarrow> scan_line accs cur l = Next accs cur"
  by (simp add: unrecognized_def ends_section_def scan_line_def)

lemma scan_line_no_alias:
  "\<not> ends_section l \<Longrightarrow> re_match rx_alias l = None \<Longrightarrow> scan_line accs [] l = Next accs []"
  by (simp add: ends_section_def scan_line_def)

section \<open>Trimming\<close>

lemma dropWhile_hd_not: "dropWhile P xs \<noteq> [] \<Longrightarrow> \<not> P (hd (dropWhile P xs))"
  by (metis hd_dropWhile)

lemma rstrip_last: "rstrip s \<noteq> [] \<Longrightarrow> \<not> is_space (last (rstrip s))"
  unfolding rstrip_def by (metis Nil_is_rev_conv hd_dropWhile last_rev rev_rev_ident)

lemma lstrip_hd: "lstrip s \<noteq> [] \<Longrightarrow> \<not> is_space (hd (lstrip s))"
  unfolding lstrip_def by (rule dropWhile_hd_not)

lemma lstrip_id: "s = [] \<or> \<not> is_space (hd s) \<Longrightarrow> lstrip s = s"
  unfolding lstrip_def by (cases s) auto

lemma rstrip_id: "s = [] \<or> \<not> is_space (last s) \<Longrightarrow> rstrip s = s"
  unfolding rstrip_def by (cases "rev s") (auto simp: last_rev[symmetric] simp del: last_rev)

lemma lstrip_last: "lstrip s \<noteq> [] \<Longrightarrow> last (lstrip s) = last s"
  unfolding lstrip_def by (metis append_Nil2 last_appendR takeWhile_dropWhile_id)

lemma strip_ends: "strip s \<noteq> [] \<Longrightarrow> \<not> is_space (hd (strip s)) \<and> \<not> is_space (last (strip s))"
  unfolding strip_def
  by (metis lstrip_hd lstrip_last rstrip_last lstrip_def dropWhile.simps(1))

lemma strip_id: "s = [] \<or> (\<not> is_space (hd s) \<and> \<not> is_space (last s)) \<Longrightarrow> strip s = s"
  unfolding strip_def by (metis lstrip_id rstrip_id)

lemma strip_strip: "strip (strip s) = strip s"
  by (metis strip_id strip_ends)

section \<open>The merge loop\<close>

lemma trimmed_Some_trimmed [simp]: "trimmed (Some (trimmed v)) = trimmed v"
  by (simp add: trimmed_def or_empty_def strip_strip)

lemma sync_entry_map:
  "map_of (fst (sync_entry (a, d) (D, r))) = (map_of D)(a \<mapsto> merged_entry d (map_of D a))"
proof (cases "map_of D a")
  case None
  then show ?thesis
    by (simp add: sync_entry_def merged_entry_def trimmed_def update_conv')
next
  case (Some d0)
  have triv: "(map_of D)(a \<mapsto> d0) = map_of D"
    using Some by (simp add: map_upd_triv)
  show ?thesis using Some triv
    by (auto simp: sync_entry_def merged_entry_def after_fill_def fills_def trimmed_def
        update_conv' Let_def)
qed

lemma sync_entry_report:
  "snd (sync_entry (a, d) (D, r)) =
     r\<lparr>added := added r + (if map_of D a = None then 1 else 0),
       filled := filled r + entry_fills d (map_of D a),
       mismatches := mismatches r + entry_mismatches d (map_of D a)\<rparr>"
proof (cases "map_of D a")
  case None
  then show ?thesis
    by (simp add: sync_entry_def entry_fills_def entry_mismatches_def)
next
  case (Some d0)
  then show ?thesis
    by (simp add: sync_entry_def entry_fills_def entry_mismatches_def after_fill_def
        fills_def differs_def trimmed_def Let_def)
qed

lemma fold_sync_entry:
  "distinct (map fst S) \<Longrightarrow> fold sync_entry S (D, r) = (R, r') \<Longrightarrow>
     (\<forall>a. map_of R a = (case map_of S a of
                           None \<Rightarrow> map_of D a
                         | Some d \<Rightarrow> Some (merged_entry d (map_of D a)))) \<and>
     added r' = added r + length (filter (\<lambda>e. map_of D (fst e) = None) S) \<and>
     filled r' = filled r + sum_list (map (\<lambda>e. entry_fills (snd e) (map_of D (fst e))) S) \<and>
     mismatches r' =
       mismatches r + sum_list (map (\<lambda>e. entry_mismatches (snd e) (map_of D (fst e))) S)"
proof (induction S arbitrary: D r)
  case Nil
  then show ?case by simp
next
  case (Cons e S)
  obtain a d where e: "e = (a, d)" by (cases e)
  obtain D1 r1 where step: "sync_entry (a, d) (D, r) = (D1, r1)" by (cases "sync_entry (a, d) (D, r)")
  have D1: "map_of D1 = (map_of D)(a \<mapsto> merged_entry d (map_of D a))"
    using sync_entry_map[of a d D r] step by simp
  have r1: "r1 = r\<lparr>added := added r + (if map_of D a = None then 1 else 0),
       filled := filled r + entry_fills d (map_of D a),
       mismatches := mismatches r + entry_mismatches d (map_of D a)\<rparr>"
    using sync_entry_report[of a d D r] step by simp
  have notin: "a \<notin> fst ` set S" and dist: "distinct (map fst S)"
    using Cons.prems(1) e by auto
  have same: "\<And>x. x \<in> set S \<Longrightarrow> map_of D1 (fst x) = map_of D (fst x)"
    using notin D1 by auto
  have fold: "fold sync_entry S (D1, r1) = (R, r')"
    using Cons.prems(2) e step by simp
  note IH = Cons.IH[OF dist fold]
  have f1: "filter (\<lambda>e. map_of D1 (fst e) = None) S = filter (\<lambda>e. map_of D (fst e) = None) S"
    by (rule filter_cong) (simp_all add: same)
  have f2: "map (\<lambda>e. entry_fills (snd e) (map_of D1 (fst e))) S
          = map (\<lambda>e. entry_fills (snd e) (map_of D (fst e))) S"
    by (rule map_cong) (simp_all add: same)
  have f3: "map (\<lambda>e. entry_mismatches (snd e) (map_of D1 (fst e))) S
          = map (\<lambda>e. entry_mismatches (snd e) (map_of D (fst e))) S"
    by (rule map_cong) (simp_all add: same)
  have none: "map_of S a = None"
    using notin by (simp add: map_of_eq_None_iff)
  have m: "\<forall>x. map_of R x = (case map_of (e # S) x of
                           None \<Rightarrow> map_of D x
                         | Some d \<Rightarrow> Some (merged_entry d (map_of D x)))"
  proof
    fix x
    show "map_of R x = (case map_of (e # S) x of
                           None \<Rightarrow> map_of D x
                         | Some d \<Rightarrow> Some (merged_entry d (map_of D x)))"
    proof (cases "x = a")
      case True
      then show ?thesis using IH none D1 e by simp
    next
      case False
      then have "map_of D1 x = map_of D x" using D1 by simp
      then show ?thesis using IH e False by (simp split: option.split)
    qed
  qed
  have c1: "added r' = added r + length (filter (\<lambda>e. map_of D (fst e) = None) (e # S))"
    using IH f1 r1 e by simp
  have c2: "filled r' = filled r + sum_list (map (\<lambda>e. entry_fills (snd e) (map_of D (fst e))) (e # S))"
    using IH f2 r1 e by simp
  have c3: "mismatches r' = mismatches r
       + sum_list (map (\<lambda>e. entry_mismatches (snd e) (map_of D (fst e))) (e # S))"
    using IH f3 r1 e by simp
  show ?case using m c1 c2 c3 by blast
qed

lemma fills_after_fill: "\<not> fills src (after_fill src dst)"
  by (simp add: after_fill_def fills_def)

lemma fills_after_fill_other: "\<not> fills src dst \<Longrightarrow> \<not> fills src (after_fill src' dst)"
  by (auto simp: after_fill_def fills_def)

lemma fills_trimmed: "\<not> fills src (Some (trimmed src))"
  by (simp add: fills_def)

lemma settled_self: "settled e (fst (sync_entry e st))"
proof -
  obtain a d D r where "e = (a, d)" "st = (D, r)" by (cases e, cases st)
  then show ?thesis
    using sync_entry_map[of a d D r]
    by (auto simp: settled_def merged_entry_def fills_after_fill fills_trimmed split: option.splits)
qed

lemma settled_step: "settled e (fst st) \<Longrightarrow> settled e (fst (sync_entry e' st))"
proof -
  assume s: "settled e (fst st)"
  obtain a d D r where e': "e' = (a, d)" "st = (D, r)" by (cases e', cases st)
  show ?thesis
  proof (cases "fst e = a")
    case True
    then show ?thesis using s e' sync_entry_map[of a d D r]
      by (auto simp: settled_def merged_entry_def fills_after_fill_other split: option.splits)
  next
    case False
    then show ?thesis using s e' sync_entry_map[of a d D r]
      by (simp add: settled_def)
  qed
qed

lemma settled_fold: "settled e (fst st) \<Longrightarrow> settled e (fst (fold sync_entry S st))"
  by (induction S arbitrary: st) (simp_all add: settled_step)

lemma settled_after: "e \<in> set S \<Longrightarrow> settled e (fst (fold sync_entry S st))"
proof (induction S arbitrary: st)
  case Nil
  then show ?case by simp
next
  case (Cons x S)
  show ?case
  proof (cases "e = x")
    case True
    then show ?thesis using settled_fold[OF settled_self, of x S st] by simp
  next
    case False
    then show ?thesis using Cons by simp
  qed
qed

lemma sync_entry_settled:
  "settled e R \<Longrightarrow>
     fst (sync_entry e (R, r)) = R \<and> added (snd (sync_entry e (R, r))) = added r
       \<and> filled (snd (sync_entry e (R, r))) = filled r"
  by (cases e) (auto simp: settled_def sync_entry_def fills_def trimmed_def Let_def
      split: option.splits)

lemma fold_settled:
  "\<forall>e \<in> set S. settled e R \<Longrightarrow>
     fst (fold sync_entry S (R, r)) = R \<and> added (snd (fold sync_entry S (R, r))) = added r
       \<and> filled (snd (fold sync_entry S (R, r))) = filled r"
proof (induction S arbitrary: r)
  case Nil
  then show ?case by simp
next
  case (Cons e S)
  obtain r1 where step: "sync_entry e (R, r) = (R, r1)" "added r1 = added r" "filled r1 = filled r"
    using sync_entry_settled[of e R r] Cons.prems by (cases "sync_entry e (R, r)") auto
  show ?case using Cons.IH[of r1] Cons.prems step by simp
qed

lemma keep_step:
  "map_of D a = Some d0 \<Longrightarrow>
     \<exists>d'. map_of (fst (sync_entry e (D, r))) a = Some d'
        \<and> (trimmed (address d0) \<noteq> [] \<longrightarrow> address d' = address d0)
        \<and> (trimmed (private_key d0) \<noteq> [] \<longrightarrow> private_key d' = private_key d0)"
proof -
  assume d0: "map_of D a = Some d0"
  obtain b d where e: "e = (b, d)" by (cases e)
  show ?thesis
    using d0 e sync_entry_map[of b d D r]
    by (cases "b = a") (auto simp: merged_entry_def after_fill_def fills_def)
qed

lemma keep_fold:
  "map_of D a = Some d0 \<Longrightarrow>
     \<exists>d'. map_of (fst (fold sync_entry S (D, r))) a = Some d'
        \<and> (trimmed (address d0) \<noteq> [] \<longrightarrow> address d' = address d0)
        \<and> (trimmed (private_key d0) \<noteq> [] \<longrightarrow> private_key d' = private_key d0)"
proof (induction S arbitrary: D r d0)
  case Nil
  then show ?case by simp
next
  case (Cons e S)
  obtain D1 r1 where step: "sync_entry e (D, r) = (D1, r1)" by (cases "sync_entry e (D, r)")
  obtain d1 where d1: "map_of D1 a = Some d1"
      "trimmed (address d0) \<noteq> [] \<longrightarrow> address d1 = address d0"
      "trimmed (private_key d0) \<noteq> [] \<longrightarrow> private_key d1 = private_key d0"
    using keep_step[OF Cons.prems, of e r] step by auto
  obtain d' where d': "map_of (fst (fold sync_entry S (D1, r1))) a = Some d'"
      "trimmed (address d1) \<noteq> [] \<longrightarrow> address d' = address d1"
      "trimmed (private_key d1) \<noteq> [] \<longrightarrow> private_key d' = private_key d1"
    using Cons.IH[OF d1(1), of r1] by auto
  show ?case using d1 d' step by auto
qed

lemma other_fold:
  "a \<notin> fst ` set S \<Longrightarrow> map_of (fst (fold sync_entry S (D, r))) a = map_of D a"
proof (induction S arbitrary: D r)
  case Nil
  then show ?case by simp
next
  case (Cons e S)
  obtain b d where e: "e = (b, d)" by (cases e)
  obtain D1 r1 where step: "sync_entry (b, d) (D, r) = (D1, r1)"
    by (cases "sync_entry (b, d) (D, r)")
  have "map_of D1 a = map_of D a"
    using sync_entry_map[of b d D r] step Cons.prems e by auto
  then show ?case using Cons e step by simp
qed

lemma differs_after_fill: "fills src dst \<Longrightarrow> \<not> differs src (after_fill src dst)"
  by (simp add: differs_def after_fill_def)

section \<open>Claims about the merge\<close>

text \<open>
  Claim C2, as amended. The merge loop never removes an alias of the destination, and it
  never changes a destination field whose value is not empty once trimmed: the alias
  is still there after the loop, with such a field at its original value. An alias
  that the source does not have keeps its whole entry. (The claim says this of every
  non-empty field; a field of white space only is filled from the source.)
\<close>

theorem reconcile_keeps_destination:
  "(map_of D a = Some d0 \<longrightarrow>
      (\<exists>d'. map_of (fst (reconcile S D)) a = Some d'
         \<and> (strip (or_empty (address d0)) \<noteq> [] \<longrightarrow> address d' = address d0)
         \<and> (strip (or_empty (private_key d0)) \<noteq> [] \<longrightarrow> private_key d' = private_key d0)))
   \<and> (a \<notin> fst ` set S \<longrightarrow> map_of (fst (reconcile S D)) a = map_of D a)"
  unfolding reconcile_def
  using keep_fold[of D a d0 S no_report] other_fold[of a S D no_report]
  by (simp add: trimmed_def)

text \<open>
  The claim as it was stated fails: the destination address \<open>'' ''\<close> is not empty,
  and the loop replaces it by the address of the source.
\<close>

theorem reconcile_overwrites_blank:
  "fst (reconcile [(''a'', \<lparr>address = Some ''0x1'', private_key = None\<rparr>)]
                  [(''a'', \<lparr>address = Some '' '', private_key = None\<rparr>)])
     = [(''a'', \<lparr>address = Some ''0x1'', private_key = None\<rparr>)]"
  by code_simp

text \<open>The theorem of C2 at work on a destination of two aliases.\<close>

theorem reconcile_keeps_destination_witness:
  "map_of [(''alice'', \<lparr>address = Some ''0xBB'', private_key = None\<rparr>),
           (''bob'', \<lparr>address = None, private_key = Some ''k2''\<rparr>)] ''bob''
     = Some \<lparr>address = None, private_key = Some ''k2''\<rparr>
   \<and> ''bob'' \<notin> fst ` set [(''alice'', \<lparr>address = Some ''0xAA'', private_key = None\<rparr>)]
   \<and> map_of (fst (reconcile [(''alice'', \<lparr>address = Some ''0xAA'', private_key = None\<rparr>)]
        [(''alice'', \<lparr>address = Some ''0xBB'', private_key = None\<rparr>),
         (''bob'', \<lparr>address = None, private_key = Some ''k2''\<rparr>)])) ''bob''
     = Some \<lparr>address = None, private_key = Some ''k2''\<rparr>
   \<and> strip (or_empty (address \<lparr>address = Some ''0xBB'', private_key = None\<rparr>)) \<noteq> []
   \<and> (\<exists>d'. map_of (fst (reconcile [(''alice'', \<lparr>address = Some ''0xAA'', private_key = None\<rparr>)]
        [(''alice'', \<lparr>address = Some ''0xBB'', private_key = None\<rparr>),
         (''bob'', \<lparr>address = None, private_key = Some ''k2''\<rparr>)])) ''alice'' = Some d'
         \<and> address d' = Some ''0xBB'')"
proof -
  let ?S = "[(''alice'', \<lparr>address = Some ''0xAA'', private_key = None\<rparr>)]"
  let ?D = "[(''alice'', \<lparr>address = Some ''0xBB'', private_key = None\<rparr>),
             (''bob'', \<lparr>address = None, private_key = Some ''k2''\<rparr>)]"
  have bob: "map_of ?D ''bob'' = Some \<lparr>address = None, private_key = Some ''k2''\<rparr>"
    by simp
  have alice: "map_of ?D ''alice'' = Some \<lparr>address = Some ''0xBB'', private_key = None\<rparr>"
    by simp
  have notin: "''bob'' \<notin> fst ` set ?S" by simp
  have nonblank: "strip (or_empty (address \<lparr>address = Some ''0xBB'', private_key = None\<rparr>)) \<noteq> []"
    by code_simp
  have 1: "map_of (fst (reconcile ?S ?D)) ''bob'' = map_of ?D ''bob''"
    using reconcile_keeps_destination[of ?D "''bob''" _ ?S] notin by blast
  have 2: "\<exists>d'. map_of (fst (reconcile ?S ?D)) ''alice'' = Some d' \<and> address d' = Some ''0xBB''"
    using reconcile_keeps_destination[of ?D "''alice''"
        "\<lparr>address = Some ''0xBB'', private_key = None\<rparr>" ?S] alice nonblank
    by auto
  show ?thesis using bob notin 1 2 nonblank by simp
qed

text \<open>
  Claim C3, as amended. The source is a dictionary, so its aliases are distinct. After
  the loop every alias of the source is in the result, with the entry \<open>merged_entry\<close>
  describes: for an alias that the destination did not have, the trimmed address and
  the trimmed private key of the source, an absent one as the empty string; for an
  alias that it had, each field that is missing in the destination (empty once
  trimmed) and not missing in the source set to the trimmed source value, the other
  fields as they were. \<open>added\<close> counts the aliases that the destination did not have,
  \<open>filled\<close> the fields filled, \<open>mismatches\<close> the fields whose trimmed source value
  and trimmed destination value, read after the fill, are both there and differ. A
  field that has just been filled is never a mismatch.
\<close>

theorem reconcile_adds_and_fills:
  assumes "distinct (map fst S)"
  shows "(\<forall>e \<in> set S. map_of (fst (reconcile S D)) (fst e)
            = Some (merged_entry (snd e) (map_of D (fst e))))
       \<and> added (snd (reconcile S D)) = length (filter (\<lambda>e. map_of D (fst e) = None) S)
       \<and> filled (snd (reconcile S D))
            = sum_list (map (\<lambda>e. entry_fills (snd e) (map_of D (fst e))) S)
       \<and> mismatches (snd (reconcile S D))
            = sum_list (map (\<lambda>e. entry_mismatches (snd e) (map_of D (fst e))) S)
       \<and> (\<forall>src dst. fills src dst \<longrightarrow> \<not> differs src (after_fill src dst))"
proof -
  obtain R r' where f: "fold sync_entry S (D, no_report) = (R, r')"
    by (cases "fold sync_entry S (D, no_report)")
  note F = fold_sync_entry[OF assms f]
  have m: "\<forall>e \<in> set S. map_of R (fst e) = Some (merged_entry (snd e) (map_of D (fst e)))"
  proof
    fix e assume "e \<in> set S"
    then have "(fst e, snd e) \<in> set S" by simp
    then have "map_of S (fst e) = Some (snd e)" using map_of_eq_Some_iff[OF assms] by blast
    then show "map_of R (fst e) = Some (merged_entry (snd e) (map_of D (fst e)))"
      using F by simp
  qed
  show ?thesis
    unfolding reconcile_def using f m F differs_after_fill by (simp add: no_report_def)
qed

text \<open>
  The claim as it was stated fails where it says that a new alias gets the values of
  the source verbatim: the address \<open>'' x''\<close> is stored as \<open>''x''\<close>, and the absent
  private key as the empty string.
\<close>

theorem reconcile_trims_source:
  "reconcile [(''a'', \<lparr>address = Some '' x'', private_key = None\<rparr>)] []
     = ([(''a'', \<lparr>address = Some ''x'', private_key = Some []\<rparr>)],
        \<lparr>added = 1, filled = 0, mismatches = 0\<rparr>)"
  by code_simp

text \<open>
  The theorem of C3 at work: \<open>alice\<close> has her address filled and her private key
  reported as a mismatch, \<open>bob\<close> is added.
\<close>

theorem reconcile_adds_and_fills_witness:
  "distinct (map fst [(''alice'', \<lparr>address = Some ''0xAA'', private_key = Some ''k9''\<rparr>),
                      (''bob'', \<lparr>address = Some ''0xB0'', private_key = None\<rparr>)])
   \<and> map_of (fst (reconcile
        [(''alice'', \<lparr>address = Some ''0xAA'', private_key = Some ''k9''\<rparr>),
         (''bob'', \<lparr>address = Some ''0xB0'', private_key = None\<rparr>)]
        [(''alice'', \<lparr>address = None, private_key = Some ''k1''\<rparr>)])) ''alice''
       = Some \<lparr>address = Some ''0xAA'', private_key = Some ''k1''\<rparr>
   \<and> map_of (fst (reconcile
        [(''alice'', \<lparr>address = Some ''0xAA'', private_key = Some ''k9''\<rparr>),
         (''bob'', \<lparr>address = Some ''0xB0'', private_key = None\<rparr>)]
        [(''alice'', \<lparr>address = None, private_key = Some ''k1''\<rparr>)])) ''bob''
       = Some \<lparr>address = Some ''0xB0'', private_key = Some []\<rparr>
   \<and> snd (reconcile
        [(''alice'', \<lparr>address = Some ''0xAA'', private_key = Some ''k9''\<rparr>),
         (''bob'', \<lparr>address = Some ''0xB0'', private_key = None\<rparr>)]
        [(''alice'', \<lparr>address = None, private_key = Some ''k1''\<rparr>)])
       = \<lparr>added = 1, filled = 1, mismatches = 1\<rparr>"
proof -
  let ?S = "[(''alice'', \<lparr>address = Some ''0xAA'', private_key = Some ''k9''\<rparr>),
             (''bob'', \<lparr>address = Some ''0xB0'', private_key = None\<rparr>)]"
  let ?D = "[(''alice'', \<lparr>address = None, private_key = Some ''k1''\<rparr>)]"
  have d: "distinct (map fst ?S)" by simp
  note T = reconcile_adds_and_fills[OF d, of ?D]
  have a: "merged_entry \<lparr>address = Some ''0xAA'', private_key = Some ''k9''\<rparr> (map_of ?D ''alice'')
             = \<lparr>address = Some ''0xAA'', private_key = Some ''k1''\<rparr>"
    by code_simp
  have b: "merged_entry \<lparr>address = Some ''0xB0'', private_key = None\<rparr> (map_of ?D ''bob'')
             = \<lparr>address = Some ''0xB0'', private_key = Some []\<rparr>"
    by code_simp
  have c1: "length (filter (\<lambda>e. map_of ?D (fst e) = None) ?S) = 1" by code_simp
  have c2: "sum_list (map (\<lambda>e. entry_fills (snd e) (map_of ?D (fst e))) ?S) = 1" by code_simp
  have c3: "sum_list (map (\<lambda>e. entry_mismatches (snd e) (map_of ?D (fst e))) ?S) = 1"
    by code_simp
  have ma: "map_of (fst (reconcile ?S ?D)) ''alice''
              = Some \<lparr>address = Some ''0xAA'', private_key = Some ''k1''\<rparr>"
    using T a by simp
  have mb: "map_of (fst (reconcile ?S ?D)) ''bob''
              = Some \<lparr>address = Some ''0xB0'', private_key = Some []\<rparr>"
    using T b by simp
  have r: "snd (reconcile ?S ?D) = \<lparr>added = 1, filled = 1, mismatches = 1\<rparr>"
    using T c1 c2 c3 by (cases "snd (reconcile ?S ?D)") simp
  show ?thesis using d ma mb r by blast
qed

text \<open>
  Claim C4. A second run of the loop with the same source, on the result of the first
  run, leaves that result as it is and adds and fills nothing.
\<close>

theorem reconcile_idempotent:
  "fst (reconcile S (fst (reconcile S D))) = fst (reconcile S D)
   \<and> added (snd (reconcile S (fst (reconcile S D)))) = 0
   \<and> filled (snd (reconcile S (fst (reconcile S D)))) = 0"
  unfolding reconcile_def
  using fold_settled[of S "fst (fold sync_entry S (D, no_report))" no_report] settled_after
  by (simp add: no_report_def)

text \<open>
  The theorem of C4 at work; the second run still counts the mismatch of the
  addresses.
\<close>

theorem reconcile_idempotent_witness:
  "fst (reconcile [(''alice'', \<lparr>address = Some ''0xAA'', private_key = Some ''k1''\<rparr>)]
         (fst (reconcile [(''alice'', \<lparr>address = Some ''0xAA'', private_key = Some ''k1''\<rparr>)]
                 [(''alice'', \<lparr>address = Some ''0xBB'', private_key = None\<rparr>)])))
     = [(''alice'', \<lparr>address = Some ''0xBB'', private_key = Some ''k1''\<rparr>)]
   \<and> snd (reconcile [(''alice'', \<lparr>address = Some ''0xAA'', private_key = Some ''k1''\<rparr>)]
         (fst (reconcile [(''alice'', \<lparr>address = Some ''0xAA'', private_key = Some ''k1''\<rparr>)]
                 [(''alice'', \<lparr>address = Some ''0xBB'', private_key = None\<rparr>)])))
     = \<lparr>added = 0, filled = 0, mismatches = 1\<rparr>"
proof -
  let ?S = "[(''alice'', \<lparr>address = Some ''0xAA'', private_key = Some ''k1''\<rparr>)]"
  let ?D = "[(''alice'', \<lparr>address = Some ''0xBB'', private_key = None\<rparr>)]"
  note T = reconcile_idempotent[of ?S ?D]
  have first: "fst (reconcile ?S ?D)
                 = [(''alice'', \<lparr>address = Some ''0xBB'', private_key = Some ''k1''\<rparr>)]"
    by code_simp
  have mis: "mismatches (snd (reconcile ?S (fst (reconcile ?S ?D)))) = 1"
    by code_simp
  have r: "snd (reconcile ?S (fst (reconcile ?S ?D))) = \<lparr>added = 0, filled = 0, mismatches = 1\<rparr>"
    using T mis by (cases "snd (reconcile ?S (fst (reconcile ?S ?D)))") simp
  show ?thesis using T first r by simp
qed

section \<open>Claims about the parser\<close>

text \<open>
  Claim C7. The parser never raises: on every text it returns a dictionary, in which no
  alias is there twice and every account has a non-empty address or a non-empty
  private key (the accounts with neither are dropped at the end). Inside the section,
  a line that no test of the loop recognizes is skipped, and so is any line that is
  neither the end of the section nor an alias header while no alias is current:
  the scan goes on as if the line were not there.
\<close>

theorem parse_never_fails:
  "(\<exists>accs. parse_accounts_accounts_section raw = Inr accs \<and> distinct (map fst accs)
       \<and> list_all (\<lambda>e. or_empty (address (snd e)) \<noteq> [] \<or> or_empty (private_key (snd e)) \<noteq> []) accs)
   \<and> (unrecognized l \<longrightarrow> scan_lines accs0 cur (l # rest) = scan_lines accs0 cur rest)
   \<and> (\<not> ends_section l \<and> re_match rx_alias l = None \<longrightarrow>
        scan_lines accs0 [] (l # rest) = scan_lines accs0 [] rest)"
proof -
  have "has_field = (\<lambda>e. or_empty (address (snd e)) \<noteq> [] \<or> or_empty (private_key (snd e)) \<noteq> [])"
    by (rule ext) (simp add: has_field_def)
  then show ?thesis
    using parse_total[of raw] scan_line_unrecognized[of l accs0 cur] scan_line_no_alias[of l accs0]
    by auto
qed

text \<open>
  The theorem of C7 at work on a text with lines before the section, a field line
  before the first alias, an alias without fields and a line of noise.
\<close>

theorem parse_never_fails_witness:
  "parse_accounts_accounts_section
     (''junk'' @ [LF] @ ''accounts:'' @ [LF] @ ''    address: x'' @ [LF] @ ''  a:'' @ [LF]
      @ ''  b:'' @ [LF] @ ''    private_key: k'' @ [LF] @ ''???'' @ [LF])
     = Inr [(''b'', \<lparr>address = None, private_key = Some ''k''\<rparr>)]
   \<and> unrecognized ''???''
   \<and> scan_lines [(''b'', no_fields)] ''b'' [''???'', ''    private_key: k'']
     = Inr [(''b'', \<lparr>address = None, private_key = Some ''k''\<rparr>)]
   \<and> scan_lines [] [] [''    address: x'', ''  a:'']
     = Inr [(''a'', no_fields)]"
proof -
  have p: "parse_accounts_accounts_section
     (''junk'' @ [LF] @ ''accounts:'' @ [LF] @ ''    address: x'' @ [LF] @ ''  a:'' @ [LF]
      @ ''  b:'' @ [LF] @ ''    private_key: k'' @ [LF] @ ''???'' @ [LF])
     = Inr [(''b'', \<lparr>address = None, private_key = Some ''k''\<rparr>)]"
    by code_simp
  have u: "unrecognized ''???''" by code_simp
  have v: "\<not> ends_section ''    address: x'' \<and> re_match rx_alias ''    address: x'' = None"
    by code_simp
  have r1: "scan_lines [(''b'', no_fields)] ''b'' [''    private_key: k'']
     = Inr [(''b'', \<lparr>address = None, private_key = Some ''k''\<rparr>)]"
    by code_simp
  have r2: "scan_lines [] [] [''  a:''] = Inr [(''a'', no_fields)]"
    by code_simp
  have s1: "scan_lines [(''b'', no_fields)] ''b'' [''???'', ''    private_key: k'']
     = scan_lines [(''b'', no_fields)] ''b'' [''    private_key: k'']"
    using parse_never_fails[of "[]" "''???''" "[(''b'', no_fields)]" "''b''" "[''    private_key: k'']"] u
    by blast
  have s2: "scan_lines [] [] [''    address: x'', ''  a:''] = scan_lines [] [] [''  a:'']"
    using parse_never_fails[of "[]" "''    address: x''" "[]" "[]" "[''  a:'']"] v
    by blast
  show ?thesis using p u s1 s2 r1 r2 by simp
qed

section \<open>Claims about the sync\<close>





section \<open>Claims about the writer\<close>

lemma keys_of_equal_maps:
  assumes "map_of xs = map_of ys"
  shows "set (map fst xs) = set (map fst ys)"
proof -
  have "dom (map_of xs) = dom (map_of ys)" using assms by simp
  then show ?thesis by (simp add: dom_map_of_conv_image_fst)
qed

lemma sort_keys_equal:
  assumes "distinct (map fst xs)" and "distinct (map fst ys)" and "map_of xs = map_of ys"
  shows "sort (map fst xs) = sort (map fst ys)"
  by (rule sorted_distinct_set_unique)
     (use assms keys_of_equal_maps[OF assms(3)] in simp_all)

lemma map_fst_sort_key:
  assumes "distinct (map fst xs)"
  shows "map fst (sort_key fst xs) = sort (map fst xs)"
  by (rule sorted_distinct_set_unique) (use assms in \<open>simp_all add: distinct_map\<close>)

lemma pk_lines_sorted_entries:
  assumes "distinct (map fst xs)"
  shows "pk_lines xs = [header_line, ''accounts:'' @ [LF]]
           @ concat (map (\<lambda>e. alias_lines (fst e) (snd e)) (sort_key fst xs))"
proof -
  have l: "map_of xs (fst e) = Some (snd e)" if "e \<in> set (sort_key fst xs)" for e
  proof -
    have "(fst e, snd e) \<in> set xs" using that by simp
    then show ?thesis using map_of_eq_Some_iff[OF assms] by blast
  qed
  have eq: "map ((\<lambda>alias. case map_of xs alias of None \<Rightarrow> [] | Some d \<Rightarrow> alias_lines alias d) \<circ> fst)
            (sort_key fst xs)
        = map (\<lambda>e. alias_lines (fst e) (snd e)) (sort_key fst xs)"
    by (rule map_cong) (simp_all add: l)
  show ?thesis
    unfolding pk_lines_def map_fst_sort_key[OF assms, symmetric] map_map eq ..
qed

lemma concat_concat_map: "concat (concat (map f xs)) = concat (map (\<lambda>x. concat (f x)) xs)"
  by (induction xs) simp_all

lemma alias_lines_text:
  "concat (alias_lines a d) =
     ''  '' @ a @ '':'' @ [LF]
     @ (if strip (or_empty (address d)) = [] then []
        else ''    address: '' @ [dquote] @ strip (or_empty (address d)) @ [dquote] @ [LF])
     @ (if strip (or_empty (private_key d)) = [] then []
        else ''    private_key: '' @ strip (or_empty (private_key d)) @ [LF])"
  by (simp add: alias_lines_def Let_def)

text \<open>
  Claim C9. For a dictionary (no alias twice) the text written depends on the mapping
  only, not on the order of insertion. It is the warning line, then the line
  \<open>accounts:\<close>, then one block for each entry, the entries taken in ascending order
  of their aliases. A block is the alias line, then the address line with the trimmed
  address between double quotes, then the private key line with the trimmed key as it
  is; the line of a field that is absent or empty (or blank) is left out.
\<close>

theorem write_pk_yaml_canonical:
  assumes "distinct (map fst xs)"
  shows "(distinct (map fst ys) \<and> map_of ys = map_of xs \<longrightarrow> write_pk_yaml ys = write_pk_yaml xs)
     \<and> write_pk_yaml xs =
         ''# IMPORTANT: This file contains PRIVATE KEYS. KEEP IT SECRET. DO NOT COMMIT.'' @ [LF]
         @ ''accounts:'' @ [LF]
         @ concat (map (\<lambda>e. concat (alias_lines (fst e) (snd e))) (sort_key fst xs))
     \<and> sorted (map fst (sort_key fst xs)) \<and> distinct (map fst (sort_key fst xs))
     \<and> set (sort_key fst xs) = set xs
     \<and> concat (alias_lines a d) =
         ''  '' @ a @ '':'' @ [LF]
         @ (if strip (or_empty (address d)) = [] then []
            else ''    address: '' @ [dquote] @ strip (or_empty (address d)) @ [dquote] @ [LF])
         @ (if strip (or_empty (private_key d)) = [] then []
            else ''    private_key: '' @ strip (or_empty (private_key d)) @ [LF])"
proof -
  have det: "write_pk_yaml ys = write_pk_yaml xs"
    if "distinct (map fst ys)" "map_of ys = map_of xs"
    using sort_keys_equal[OF that(1) assms that(2)] that(2)
    by (simp add: write_pk_yaml_def pk_lines_def)
  have shape: "write_pk_yaml xs =
         ''# IMPORTANT: This file contains PRIVATE KEYS. KEEP IT SECRET. DO NOT COMMIT.'' @ [LF]
         @ ''accounts:'' @ [LF]
         @ concat (map (\<lambda>e. concat (alias_lines (fst e) (snd e))) (sort_key fst xs))"
    unfolding write_pk_yaml_def pk_lines_sorted_entries[OF assms] header_line_def
    by (simp add: concat_concat_map)
  have d: "distinct (map fst (sort_key fst xs))"
    unfolding map_fst_sort_key[OF assms] using assms by simp
  show ?thesis using det shape d alias_lines_text by simp
qed

text \<open>
  The theorem of C9 at work on two insertion orders of the same dictionary; the blank
  address of \<open>a\<close> is left out.
\<close>

theorem write_pk_yaml_canonical_witness:
  "distinct (map fst [(''b'', \<lparr>address = Some ''x'', private_key = None\<rparr>),
                      (''a'', \<lparr>address = Some '' '', private_key = Some ''k''\<rparr>)])
   \<and> distinct (map fst [(''a'', \<lparr>address = Some '' '', private_key = Some ''k''\<rparr>),
                        (''b'', \<lparr>address = Some ''x'', private_key = None\<rparr>)])
   \<and> map_of [(''a'', \<lparr>address = Some '' '', private_key = Some ''k''\<rparr>),
              (''b'', \<lparr>address = Some ''x'', private_key = None\<rparr>)]
     = map_of [(''b'', \<lparr>address = Some ''x'', private_key = None\<rparr>),
               (''a'', \<lparr>address = Some '' '', private_key = Some ''k''\<rparr>)]
   \<and> write_pk_yaml [(''a'', \<lparr>address = Some '' '', private_key = Some ''k''\<rparr>),
                     (''b'', \<lparr>address = Some ''x'', private_key = None\<rparr>)]
     = write_pk_yaml [(''b'', \<lparr>address = Some ''x'', private_key = None\<rparr>),
                      (''a'', \<lparr>address = Some '' '', private_key = Some ''k''\<rparr>)]
   \<and> write_pk_yaml [(''b'', \<lparr>address = Some ''x'', private_key = None\<rparr>),
                     (''a'', \<lparr>address = Some '' '', private_key = Some ''k''\<rparr>)]
     = ''# IMPORTANT: This file contains PRIVATE KEYS. KEEP IT SECRET. DO NOT COMMIT.'' @ [LF]
       @ ''accounts:'' @ [LF]
       @ ''  a:'' @ [LF] @ ''    private_key: k'' @ [LF]
       @ ''  b:'' @ [LF] @ ''    address: '' @ [dquote] @ ''x'' @ [dquote] @ [LF]"
proof -
  let ?xs = "[(''b'', \<lparr>address = Some ''x'', private_key = None\<rparr>),
              (''a'', \<lparr>address = Some '' '', private_key = Some ''k''\<rparr>)]"
  let ?ys = "[(''a'', \<lparr>address = Some '' '', private_key = Some ''k''\<rparr>),
              (''b'', \<lparr>address = Some ''x'', private_key = None\<rparr>)]"
  have dx: "distinct (map fst ?xs)" by simp
  have dy: "distinct (map fst ?ys)" by simp
  have m: "map_of ?ys = map_of ?xs" by (rule ext) simp
  note T = write_pk_yaml_canonical[OF dx, of ?ys]
  have same: "write_pk_yaml ?ys = write_pk_yaml ?xs" using T dy m by blast
  have ev: "concat (map (\<lambda>e. concat (alias_lines (fst e) (snd e))) (sort_key fst ?xs))
     = ''  a:'' @ [LF] @ ''    private_key: k'' @ [LF]
       @ ''  b:'' @ [LF] @ ''    address: '' @ [dquote] @ ''x'' @ [dquote] @ [LF]"
    by code_simp
  have out: "write_pk_yaml ?xs
     = ''# IMPORTANT: This file contains PRIVATE KEYS. KEEP IT SECRET. DO NOT COMMIT.'' @ [LF]
       @ ''accounts:'' @ [LF]
       @ concat (map (\<lambda>e. concat (alias_lines (fst e) (snd e))) (sort_key fst ?xs))"
    using T by blast
  show ?thesis using dx dy m same out[unfolded ev] by blast
qed

section \<open>The anchor of the section\<close>

lemma colon_tail_iff:
  "colon_tail u \<longleftrightarrow> (\<exists>w2 w3. u = w2 @ '':'' @ w3 \<and> list_all is_space w2 \<and> list_all is_space w3)"
proof
  assume c: "colon_tail u"
  then obtain xs where xs: "dropWhile is_space u = CHR '':'' # xs" "list_all is_space xs"
    by (auto simp: colon_tail_def lstrip_def split: list.splits)
  have "u = takeWhile is_space u @ '':'' @ xs"
    using xs(1) takeWhile_dropWhile_id[of is_space u] by simp
  moreover have "list_all is_space (takeWhile is_space u)"
    unfolding list_all_iff using set_takeWhileD by fast
  ultimately show "\<exists>w2 w3. u = w2 @ '':'' @ w3 \<and> list_all is_space w2 \<and> list_all is_space w3"
    using xs(2) by blast
next
  assume "\<exists>w2 w3. u = w2 @ '':'' @ w3 \<and> list_all is_space w2 \<and> list_all is_space w3"
  then obtain w2 w3 where u: "u = w2 @ '':'' @ w3" "list_all is_space w2" "list_all is_space w3"
    by blast
  have "dropWhile is_space u = CHR '':'' # w3"
    unfolding u(1) using u(2) by (simp add: dropWhile_append2 list_all_iff not_space_colon)
  then show "colon_tail u" using u(3) by (simp add: colon_tail_def lstrip_def)
qed

lemma is_anchor_iff:
  "is_anchor l \<longleftrightarrow>
     (\<exists>w1 w2 w3. l = w1 @ ''accounts'' @ w2 @ '':'' @ w3
        \<and> list_all is_space w1 \<and> list_all is_space w2 \<and> list_all is_space w3)"
proof
  assume a: "is_anchor l"
  let ?r = "dropWhile is_space l"
  have t: "take 8 ?r = ''accounts''" and c: "colon_tail (drop 8 ?r)"
    using a by (simp_all add: is_anchor_def lstrip_def Let_def)
  obtain w2 w3 where w: "drop 8 ?r = w2 @ '':'' @ w3" "list_all is_space w2" "list_all is_space w3"
    using c unfolding colon_tail_iff by blast
  have "?r = ''accounts'' @ w2 @ '':'' @ w3"
    using append_take_drop_id[of 8 ?r] unfolding t w(1) by simp
  then have "l = takeWhile is_space l @ ''accounts'' @ w2 @ '':'' @ w3"
    using takeWhile_dropWhile_id[of is_space l] by simp
  moreover have "list_all is_space (takeWhile is_space l)"
    unfolding list_all_iff using set_takeWhileD by fast
  ultimately show "\<exists>w1 w2 w3. l = w1 @ ''accounts'' @ w2 @ '':'' @ w3
        \<and> list_all is_space w1 \<and> list_all is_space w2 \<and> list_all is_space w3"
    using w(2,3) by blast
next
  assume "\<exists>w1 w2 w3. l = w1 @ ''accounts'' @ w2 @ '':'' @ w3
        \<and> list_all is_space w1 \<and> list_all is_space w2 \<and> list_all is_space w3"
  then obtain w1 w2 w3 where l: "l = w1 @ ''accounts'' @ w2 @ '':'' @ w3"
      "list_all is_space w1" "list_all is_space w2" "list_all is_space w3"
    by blast
  have r: "dropWhile is_space l = ''accounts'' @ w2 @ '':'' @ w3"
    unfolding l(1) using l(2) by (simp add: dropWhile_append2 list_all_iff is_space_def)
  have "colon_tail (w2 @ '':'' @ w3)"
    unfolding colon_tail_iff using l(3,4) by blast
  then show "is_anchor l"
    by (simp add: is_anchor_def lstrip_def r)
qed

lemma find_start_None: "find_start ls = None \<longleftrightarrow> (\<forall>l \<in> set ls. \<not> is_anchor l)"
  by (induction ls) (simp_all add: rx_accounts_eq)

lemma find_start_first:
  "(\<forall>x \<in> set pre. \<not> is_anchor x) \<Longrightarrow> is_anchor l
     \<Longrightarrow> find_start (pre @ l # post) = Some (length pre)"
  by (induction pre) (simp_all add: rx_accounts_eq)

lemma parse_no_anchor:
  "(\<forall>l \<in> set (splitlines raw). \<not> is_anchor l) \<Longrightarrow> parse_accounts_accounts_section raw = Inr []"
  using find_start_None[of "splitlines raw"] by (simp add: parse_accounts_accounts_section_def)

lemma parse_from_anchor:
  assumes "splitlines raw = pre @ l # post" and "\<forall>x \<in> set pre. \<not> is_anchor x" and "is_anchor l"
  shows "parse_accounts_accounts_section raw =
           (case scan_lines [] [] post of Inl e \<Rightarrow> Inl e | Inr accs \<Rightarrow> Inr (filter has_field accs))"
  using find_start_first[OF assms(2,3), of post]
  by (simp add: parse_accounts_accounts_section_def assms(1))

text \<open>
  Claim C5, as amended. The test that finds the section matches exactly the lines made
  of optional white space, the key \<open>accounts\<close>, optional white space, a colon and
  nothing but white space: white space before the key is allowed. A text without such
  a line parses to the empty dictionary. Otherwise the section starts after the first
  such line: the result is what the scan of the lines after it gives.
\<close>

theorem anchor_line:
  "(re_match rx_accounts l \<noteq> None \<longleftrightarrow>
      (\<exists>w1 w2 w3. l = w1 @ ''accounts'' @ w2 @ '':'' @ w3
         \<and> list_all is_space w1 \<and> list_all is_space w2 \<and> list_all is_space w3))
   \<and> ((\<forall>x \<in> set (splitlines raw). re_match rx_accounts x = None) \<longrightarrow>
        parse_accounts_accounts_section raw = Inr [])
   \<and> (splitlines raw = pre @ l # post \<and> (\<forall>x \<in> set pre. re_match rx_accounts x = None)
        \<and> re_match rx_accounts l \<noteq> None \<longrightarrow>
        parse_accounts_accounts_section raw =
          (case scan_lines [] [] post of Inl e \<Rightarrow> Inl e | Inr accs \<Rightarrow> Inr (filter has_field accs)))"
proof -
  have m: "re_match rx_accounts x \<noteq> None \<longleftrightarrow> is_anchor x" for x
    by (simp add: rx_accounts_eq)
  have n: "re_match rx_accounts x = None \<longleftrightarrow> \<not> is_anchor x" for x
    by (simp add: rx_accounts_eq)
  show ?thesis
    unfolding m n using is_anchor_iff[of l] parse_no_anchor[of raw] parse_from_anchor[of raw pre l post]
    by blast
qed

text \<open>
  The claim as it was stated fails: the only \<open>accounts:\<close> line of this text has white
  space before it, and the text parses to one account.
\<close>

theorem indented_anchor_parses:
  "parse_accounts_accounts_section
     (''  accounts:'' @ [LF] @ ''  a:'' @ [LF] @ ''    address: x'' @ [LF])
     = Inr [(''a'', \<lparr>address = Some ''x'', private_key = None\<rparr>)]"
  by code_simp

text \<open>
  The theorem of C5 at work: a text without the section, and a text whose section
  starts at its second line.
\<close>

theorem anchor_line_witness:
  "parse_accounts_accounts_section ''nothing: here'' = Inr []
   \<and> re_match rx_accounts (''  '' @ ''accounts'' @ '' '' @ '':'' @ []) \<noteq> None
   \<and> parse_accounts_accounts_section
       (''x: 1'' @ [LF] @ ''  accounts :'' @ [LF] @ ''  a:'' @ [LF] @ ''    private_key: k'' @ [LF])
     = Inr [(''a'', \<lparr>address = None, private_key = Some ''k''\<rparr>)]"
proof -
  let ?raw = "''x: 1'' @ [LF] @ ''  accounts :'' @ [LF] @ ''  a:'' @ [LF] @ ''    private_key: k'' @ [LF]"
  let ?l = "''  '' @ ''accounts'' @ '' '' @ '':'' @ []"
  have sp: "list_all is_space ''  ''" "list_all is_space '' ''" "list_all is_space []"
    by (simp_all add: is_space_def)
  have a: "re_match rx_accounts ?l \<noteq> None"
    using anchor_line[of ?l "[]" "[]" "[]"] sp by blast
  have s0: "splitlines ''nothing: here'' = [''nothing: here'']" by code_simp
  have n0: "re_match rx_accounts ''nothing: here'' = None" by code_simp
  have p0: "parse_accounts_accounts_section ''nothing: here'' = Inr []"
    using anchor_line[of "[]" "''nothing: here''" "[]" "[]"] s0 n0 by simp
  have s1: "splitlines ?raw = [''x: 1''] @ ?l # [''  a:'', ''    private_key: k'']" by code_simp
  have n1: "\<forall>x \<in> set [''x: 1'']. re_match rx_accounts x = None" by code_simp
  have sc: "scan_lines [] [] [''  a:'', ''    private_key: k'']
              = Inr [(''a'', \<lparr>address = None, private_key = Some ''k''\<rparr>)]"
    by code_simp
  have hf: "filter has_field [(''a'', \<lparr>address = None, private_key = Some ''k''\<rparr>)]
              = [(''a'', \<lparr>address = None, private_key = Some ''k''\<rparr>)]"
    by code_simp
  have p1: "parse_accounts_accounts_section ?raw =
          (case scan_lines [] [] [''  a:'', ''    private_key: k''] of
             Inl e \<Rightarrow> Inl e | Inr accs \<Rightarrow> Inr (filter has_field accs))"
    using anchor_line[of ?l ?raw "[''x: 1'']" "[''  a:'', ''    private_key: k'']"] s1 n1 a
    by blast
  have p1': "parse_accounts_accounts_section ?raw
               = Inr [(''a'', \<lparr>address = None, private_key = Some ''k''\<rparr>)]"
    unfolding p1 sc by (simp only: sum.case hf)
  show ?thesis using p0 a p1' by blast
qed

section \<open>Indentation\<close>

lemma rx_toplevel_indent: "re_match rx_toplevel l \<noteq> None \<Longrightarrow> indent l = 0"
proof -
  assume "re_match rx_toplevel l \<noteq> None"
  then obtain x t where "l = x # t" "is_alias_char x" using rx_toplevel_hd by blast
  then show ?thesis by (simp add: indent_def alias_not_space)
qed

lemma scan_line_other_indent:
  assumes "indent l \<noteq> 0" and "indent l \<noteq> 2" and "indent l \<noteq> 4"
  shows "scan_line accs cur l = Next accs cur"
proof -
  have "re_match rx_toplevel l = None"
    using assms(1) rx_toplevel_indent[of l] by (cases "re_match rx_toplevel l") simp_all
  moreover have "re_match rx_alias l = None"
    using assms(2) rx_alias_indent[of l] unfolding indent_def by (cases "re_match rx_alias l") auto
  moreover have "re_match rx_addr l = None"
    using assms(3) rx_addr_indent[of l] unfolding indent_def by (cases "re_match rx_addr l") auto
  moreover have "re_match rx_pk l = None"
    using assms(3) rx_pk_indent[of l] unfolding indent_def by (cases "re_match rx_pk l") auto
  ultimately show ?thesis by (simp add: scan_line_def)
qed

lemma scan_line_alias_only:
  assumes "scan_line accs cur l = Next accs' cur'" and "indent l \<noteq> 2"
  shows "cur' = cur \<and> map fst accs' = map fst accs"
proof -
  have na: "re_match rx_alias l = None"
    using assms(2) rx_alias_indent[of l] unfolding indent_def
    by (cases "re_match rx_alias l") auto
  have keys: "map fst (AList.update cur v accs) = map fst accs" if "map_of accs cur = Some d" for v d
  proof -
    have "cur \<in> set (map fst accs)" using that map_of_SomeD by force
    then show ?thesis by (simp add: update_keys)
  qed
  show ?thesis
    using assms(1) na keys
    by (auto simp: scan_line_def set_field_def split: if_splits option.splits)
qed

lemma scan_line_field_only:
  assumes "scan_line accs cur l = Next accs' cur'" and "indent l \<noteq> 4"
    and "map_of accs b = Some d"
  shows "map_of accs' b = Some d"
proof -
  have n1: "re_match rx_addr l = None"
    using assms(2) rx_addr_indent[of l] unfolding indent_def
    by (cases "re_match rx_addr l") auto
  have n2: "re_match rx_pk l = None"
    using assms(2) rx_pk_indent[of l] unfolding indent_def
    by (cases "re_match rx_pk l") auto
  show ?thesis
    using assms(1,3) n1 n2
    by (auto simp: scan_line_def update_conv' split: if_splits option.splits)
qed

lemma scan_line_Stop_indent: "scan_line accs cur l = Stop \<Longrightarrow> indent l = 0"
proof -
  assume s: "scan_line accs cur l = Stop"
  have "re_match rx_toplevel l \<noteq> None"
    using s by (auto simp: scan_line_def set_field_def split: if_splits option.splits)
  then show ?thesis by (rule rx_toplevel_indent)
qed

lemma space_not_alias: "is_space c \<Longrightarrow> \<not> is_alias_char c"
  using alias_not_space by blast

lemma scan_line_key_line_stops:
  assumes "valid_alias n" and "list_all is_space w1" and "list_all is_space w2"
  shows "scan_line accs cur (n @ w1 @ '':'' @ w2) = Stop"
proof -
  let ?t = "w1 @ '':'' @ w2"
  have n: "n \<noteq> []" "\<And>x. x \<in> set n \<Longrightarrow> is_alias_char x"
    using assms(1) by (simp_all add: valid_alias_def list_all_iff)
  have t0: "takeWhile is_alias_char ?t = []"
    using assms(2) space_not_alias alias_not_colon by (cases w1) simp_all
  have tw: "takeWhile is_alias_char (n @ ?t) = n"
    using n(2) t0 by (simp add: takeWhile_append2)
  have d0: "dropWhile is_alias_char ?t = ?t"
    using assms(2) space_not_alias alias_not_colon by (cases w1) simp_all
  have dw: "dropWhile is_alias_char (n @ ?t) = ?t"
    using n(2) d0 by (simp add: dropWhile_append2)
  have ct: "colon_tail ?t"
    unfolding colon_tail_iff using assms(2,3) by blast
  have m: "re_match rx_toplevel (n @ ?t) \<noteq> None"
    unfolding rx_toplevel_eq tw dw using n(1) ct by simp
  have "is_alias_char (hd n)" using n by simp
  then have "hd n \<noteq> CHR '' ''" using space_space space_not_alias by auto
  then have st: "\<not> startswith (n @ ?t) CHR '' ''"
    using n(1) by (cases n) (simp_all add: startswith_def)
  show ?thesis using m st by (simp add: scan_line_def)
qed

text \<open>
  Claim C6, as amended. Inside the section a line is taken as an alias header only
  when it starts with exactly two white space characters, and as an address or private
  key line only when it starts with exactly four; the characters may be spaces, tabs
  or any other character that \<^verbatim>\<open>\s\<close> matches. This holds of the three patterns and of
  the loop body: a line with another indentation than two leaves the current alias
  and the aliases of the dictionary as they are, and a line with another indentation
  than four leaves every entry of the dictionary as it is. So a line with an
  indentation other than zero, two and four changes nothing, and the scan goes on as
  if it were not there. The section ends only at a line without indentation, and it
  does end at every line made of an identifier, white space, a colon and white space.
\<close>

theorem exact_indentation:
  "(re_match rx_alias l = Some a \<longrightarrow> indent l = 2)
   \<and> (re_match rx_addr l = Some g \<longrightarrow> indent l = 4)
   \<and> (re_match rx_pk l = Some g \<longrightarrow> indent l = 4)
   \<and> (scan_line accs cur l = Next accs' cur' \<and> indent l \<noteq> 2 \<longrightarrow>
        cur' = cur \<and> map fst accs' = map fst accs)
   \<and> (scan_line accs cur l = Next accs' cur' \<and> indent l \<noteq> 4 \<and> map_of accs b = Some d \<longrightarrow>
        map_of accs' b = Some d)
   \<and> (indent l \<noteq> 0 \<and> indent l \<noteq> 2 \<and> indent l \<noteq> 4 \<longrightarrow>
        scan_line accs cur l = Next accs cur
        \<and> scan_lines accs cur (l # rest) = scan_lines accs cur rest)
   \<and> (scan_line accs cur l = Stop \<longrightarrow> indent l = 0)
   \<and> (valid_alias n \<and> list_all is_space w1 \<and> list_all is_space w2 \<longrightarrow>
        scan_line accs cur (n @ w1 @ '':'' @ w2) = Stop)"
proof -
  have r: "(re_match rx_alias l = Some a \<longrightarrow> indent l = 2)
     \<and> (re_match rx_addr l = Some g \<longrightarrow> indent l = 4)
     \<and> (re_match rx_pk l = Some g \<longrightarrow> indent l = 4)"
    using rx_alias_indent[of l a] rx_addr_indent[of l g] rx_pk_indent[of l g]
    by (simp add: indent_def)
  have o: "indent l \<noteq> 0 \<and> indent l \<noteq> 2 \<and> indent l \<noteq> 4 \<longrightarrow>
        scan_line accs cur l = Next accs cur
        \<and> scan_lines accs cur (l # rest) = scan_lines accs cur rest"
    using scan_line_other_indent[of l accs cur] by simp
  show ?thesis
    using r o scan_line_alias_only[of accs cur l accs' cur']
      scan_line_field_only[of accs cur l accs' cur' b d]
      scan_line_Stop_indent[of accs cur l]
      scan_line_key_line_stops[of n w1 w2 accs cur]
    by blast
qed

text \<open>
  The claim as it was stated fails: here the alias header is indented by two tabs and
  the address line by four, not by spaces, and both are recognized.
\<close>

theorem tab_indentation_parses:
  "parse_accounts_accounts_section
     (''accounts:'' @ [LF] @ [CHR 0x09, CHR 0x09] @ ''alice:'' @ [LF]
      @ [CHR 0x09, CHR 0x09, CHR 0x09, CHR 0x09] @ ''address: x'' @ [LF])
     = Inr [(''alice'', \<lparr>address = Some ''x'', private_key = None\<rparr>)]"
  by code_simp

text \<open>
  The theorem of C6 at work: an alias header indented by three spaces is skipped, so
  the address line after it has no alias to go to, and the text parses to no account;
  an address line indented by two spaces sets nothing; a key without indentation
  ends the section.
\<close>

theorem exact_indentation_witness:
  "indent ''   alice:'' = 3
   \<and> scan_lines [] [] [''   alice:'', ''    address: x''] = scan_lines [] [] [''    address: x'']
   \<and> re_match rx_alias ''  alice:'' = Some ''alice''
   \<and> indent ''  alice:'' = 2
   \<and> parse_accounts_accounts_section
       (''accounts:'' @ [LF] @ ''   alice:'' @ [LF] @ ''    address: x'' @ [LF]) = Inr []
   \<and> scan_line [(''a'', no_fields)] ''a'' ''  address: x'' = Next [(''a'', no_fields)] ''a''
   \<and> indent ''  address: x'' = 2
   \<and> map_of [(''a'', no_fields)] ''a'' = Some no_fields
   \<and> valid_alias ''other''
   \<and> scan_line [(''a'', no_fields)] ''a'' (''other'' @ [] @ '':'' @ []) = Stop
   \<and> indent (''other'' @ [] @ '':'' @ []) = 0"
proof -
  have i: "indent ''   alice:'' = 3" by code_simp
  have s: "scan_lines [] [] [''   alice:'', ''    address: x''] = scan_lines [] [] [''    address: x'']"
    using exact_indentation[where l = "''   alice:''" and accs = "[]" and cur = "[]"
        and rest = "[''    address: x'']"] i
    by simp
  have m: "re_match rx_alias ''  alice:'' = Some ''alice''" by code_simp
  have j: "indent ''  alice:'' = 2"
    using exact_indentation[where l = "''  alice:''" and a = "''alice''"] m by blast
  have p: "parse_accounts_accounts_section
       (''accounts:'' @ [LF] @ ''   alice:'' @ [LF] @ ''    address: x'' @ [LF]) = Inr []"
    by code_simp
  have f: "scan_line [(''a'', no_fields)] ''a'' ''  address: x'' = Next [(''a'', no_fields)] ''a''"
    by code_simp
  have fi: "indent ''  address: x'' = 2" by code_simp
  have fm: "map_of [(''a'', no_fields)] ''a'' = Some no_fields" by simp
  have v: "valid_alias ''other''" by code_simp
  have sp: "list_all is_space []" by simp
  have st: "scan_line [(''a'', no_fields)] ''a'' (''other'' @ [] @ '':'' @ []) = Stop"
    using exact_indentation[where n = "''other''" and ?w1.0 = "[]" and ?w2.0 = "[]"
        and accs = "[(''a'', no_fields)]" and cur = "''a''"] v sp
    by blast
  have si: "indent (''other'' @ [] @ '':'' @ []) = 0"
    using exact_indentation[where l = "''other'' @ [] @ '':'' @ []"
        and accs = "[(''a'', no_fields)]" and cur = "''a''"] st
    by blast
  show ?thesis using i s m j p f fi fm v st si by blast
qed

section \<open>Repeated field lines\<close>

lemma field_match_plain:
  assumes "field_match f l = Some g"
  shows "\<not> ends_section l \<and> re_match rx_alias l = None"
proof -
  have i: "length (takeWhile is_space l) = 4"
    using assms rx_addr_indent[of l] rx_pk_indent[of l]
    by (cases f) (auto simp: field_match_def split: option.splits)
  have "re_match rx_toplevel l = None"
    using i rx_toplevel_indent[of l] by (cases "re_match rx_toplevel l") (simp_all add: indent_def)
  moreover have "re_match rx_alias l = None"
    using i rx_alias_indent[of l] by (cases "re_match rx_alias l") auto
  ultimately show ?thesis by (simp add: ends_section_def)
qed

lemma scan_line_Next_cur:
  "scan_line accs cur l = Next accs1 cur1 \<Longrightarrow>
     \<not> ends_section l \<and> cur1 = (case re_match rx_alias l of Some b \<Rightarrow> b | None \<Rightarrow> cur)"
  by (auto simp: scan_line_def set_field_def ends_section_def split: if_splits option.splits)

lemma scan_line_not_end:
  assumes "scan_inv accs cur" and "\<not> ends_section l"
  shows "\<exists>accs1. scan_line accs cur l
            = Next accs1 (case re_match rx_alias l of Some b \<Rightarrow> b | None \<Rightarrow> cur)
          \<and> scan_inv accs1 (case re_match rx_alias l of Some b \<Rightarrow> b | None \<Rightarrow> cur)"
proof -
  have "scan_line accs cur l \<noteq> Stop"
    using assms(2) by (auto simp: scan_line_def set_field_def ends_section_def split: option.splits)
  then obtain accs1 cur1 where n: "scan_line accs cur l = Next accs1 cur1" "scan_inv accs1 cur1"
    using scan_line_inv[OF assms(1), of l] by blast
  then show ?thesis using scan_line_Next_cur[OF n(1)] by simp
qed

lemma scan_prefix:
  "scan_inv accs cur \<Longrightarrow> current_after cur pre = Some a \<Longrightarrow>
     \<exists>accs1. scan_inv accs1 a \<and> (\<forall>rest. scan_lines accs cur (pre @ rest) = scan_lines accs1 a rest)"
proof (induction pre arbitrary: accs cur)
  case Nil
  then show ?case by auto
next
  case (Cons l pre)
  have ne: "\<not> ends_section l" using Cons.prems(2) by (auto split: if_splits)
  let ?c = "case re_match rx_alias l of Some b \<Rightarrow> b | None \<Rightarrow> cur"
  obtain accs1 where s: "scan_line accs cur l = Next accs1 ?c" "scan_inv accs1 ?c"
    using scan_line_not_end[OF Cons.prems(1) ne] by blast
  have "current_after ?c pre = Some a"
    using Cons.prems(2) ne by (simp split: option.splits)
  from Cons.IH[OF s(2) this] obtain accs2 where
    "scan_inv accs2 a" "\<forall>rest. scan_lines accs1 ?c (pre @ rest) = scan_lines accs2 a rest"
    by blast
  then show ?case using s(1) by auto
qed

lemma scan_line_sets:
  assumes "scan_inv accs a" and "a \<noteq> []" and "field_match f l = Some g"
  shows "\<exists>accs2 d. scan_line accs a l = Next accs2 a \<and> scan_inv accs2 a
           \<and> map_of accs2 a = Some d \<and> get_field f d = Some (strip_quotes g)"
proof -
  have pl: "\<not> (re_match rx_toplevel l \<noteq> None \<and> \<not> startswith l CHR '' '')"
      "re_match rx_alias l = None"
    using field_match_plain[OF assms(3)] by (simp_all add: ends_section_def)
  have "map_of accs a \<noteq> None"
    using assms(1,2) by (simp add: scan_inv_def map_of_eq_None_iff)
  then obtain d0 where d0: "map_of accs a = Some d0" by blast
  have inv: "scan_inv (AList.update a d accs) a" for d
    using assms(1) by (simp add: scan_inv_def distinct_update dom_update)
  show ?thesis
  proof (cases f)
    case Address
    then have m: "re_match rx_addr l = Some g" using assms(3) by (simp add: field_match_def)
    have "scan_line accs a l = Next (AList.update a (d0\<lparr>address := Some (strip_quotes g)\<rparr>) accs) a"
      using pl m d0 assms(2) by (simp add: scan_line_def set_field_def)
    then show ?thesis using inv Address by (simp add: update_conv' get_field_def)
  next
    case PrivateKey
    then have m: "re_match rx_addr l = None" "re_match rx_pk l = Some g"
      using assms(3) by (auto simp: field_match_def split: option.splits)
    have "scan_line accs a l = Next (AList.update a (d0\<lparr>private_key := Some (strip_quotes g)\<rparr>) accs) a"
      using pl m d0 assms(2) by (simp add: scan_line_def set_field_def)
    then show ?thesis using inv PrivateKey by (simp add: update_conv' get_field_def)
  qed
qed

lemma scan_line_keeps:
  assumes "map_of accs a = Some d" and "get_field f d = Some v"
    and "scan_line accs cur l = Next accs1 cur1"
    and "re_match rx_alias l = None \<Longrightarrow> \<not> (cur = a \<and> a \<noteq> [] \<and> field_match f l \<noteq> None)"
  shows "\<exists>d1. map_of accs1 a = Some d1 \<and> get_field f d1 = Some v"
proof (cases "re_match rx_alias l")
  case (Some b)
  then have "accs1 = accs \<or> (map_of accs b = None \<and> accs1 = AList.update b no_fields accs)"
    using assms(3) by (auto simp: scan_line_def split: if_splits)
  then show ?thesis using assms(1,2) by (auto simp: update_conv')
next
  case None
  note na = None
  show ?thesis
  proof (cases "cur = []")
    case True
    then show ?thesis using assms(1,2,3) na by (auto simp: scan_line_def split: if_splits)
  next
    case False
    note ce = False
    show ?thesis
    proof (cases "cur = a")
      case True
      then have nf: "field_match f l = None" using assms(4)[OF na] ce by simp
      show ?thesis
      proof (cases f)
        case Address
        then have "re_match rx_addr l = None" using nf by (simp add: field_match_def)
        then show ?thesis using assms(1,2,3) na ce True Address
          by (auto simp: scan_line_def set_field_def update_conv' get_field_def
              split: if_splits option.splits)
      next
        case PrivateKey
        then have "re_match rx_addr l \<noteq> None \<or> re_match rx_pk l = None"
          using nf by (auto simp: field_match_def split: option.splits)
        then show ?thesis using assms(1,2,3) na ce True PrivateKey
          by (auto simp: scan_line_def set_field_def update_conv' get_field_def
              split: if_splits option.splits)
      qed
    next
      case False
      then show ?thesis using assms(1,2,3) na ce
        by (auto simp: scan_line_def set_field_def update_conv' split: if_splits option.splits)
    qed
  qed
qed

lemma scan_rest_keeps:
  "scan_inv accs cur \<Longrightarrow> map_of accs a = Some d \<Longrightarrow> get_field f d = Some v
     \<Longrightarrow> \<not> set_later f a cur post
     \<Longrightarrow> \<exists>accs' d'. scan_lines accs cur post = Inr accs' \<and> distinct (map fst accs')
           \<and> map_of accs' a = Some d' \<and> get_field f d' = Some v"
proof (induction post arbitrary: accs cur d)
  case Nil
  then show ?case by (simp add: scan_inv_def)
next
  case (Cons l post)
  show ?case
  proof (cases "ends_section l")
    case True
    then have "scan_line accs cur l = Stop" by (simp add: scan_line_def ends_section_def)
    then show ?thesis using Cons.prems by (simp add: scan_inv_def)
  next
    case False
    let ?c = "case re_match rx_alias l of Some b \<Rightarrow> b | None \<Rightarrow> cur"
    obtain accs1 where s: "scan_line accs cur l = Next accs1 ?c" "scan_inv accs1 ?c"
      using scan_line_not_end[OF Cons.prems(1) False] by blast
    have quiet: "re_match rx_alias l = None \<Longrightarrow> \<not> (cur = a \<and> a \<noteq> [] \<and> field_match f l \<noteq> None)"
      using Cons.prems(4) False by simp
    obtain d1 where d1: "map_of accs1 a = Some d1" "get_field f d1 = Some v"
      using scan_line_keeps[OF Cons.prems(2,3) s(1) quiet] by blast
    have later: "\<not> set_later f a ?c post"
      using Cons.prems(4) False by (simp split: option.splits)
    from Cons.IH[OF s(2) d1 later] show ?thesis using s(1) by simp
  qed
qed

lemma cleanup_lookup:
  assumes "distinct (map fst accs)" and "map_of accs a = Some d"
  shows "map_of (filter has_field accs) a = (if has_field (a, d) then Some d else None)"
proof -
  have mem: "(a, d) \<in> set accs" using assms by simp
  have df: "distinct (map fst (filter has_field accs))"
    using assms(1) by (rule distinct_map_filter)
  show ?thesis
  proof (cases "has_field (a, d)")
    case True
    then have "(a, d) \<in> set (filter has_field accs)" using mem by simp
    then show ?thesis using True map_of_eq_Some_iff[OF df] by simp
  next
    case False
    have "d' = d" if "(a, d') \<in> set accs" for d'
      using that assms map_of_eq_Some_iff[OF assms(1)] by simp
    then have "a \<notin> fst ` set (filter has_field accs)" using False by auto
    then show ?thesis using False by (simp add: map_of_eq_None_iff)
  qed
qed

text \<open>
  Claim C10. Take a line of the section that is a line of the field \<open>f\<close> (address or
  private key) read while the alias \<open>a\<close> is current, and suppose that no later line of
  the section is a line of the same field in a block of \<open>a\<close>, be it the same block or
  one opened by another header of \<open>a\<close>. Then the value the parser returns for that
  field of \<open>a\<close> is the value of this line (its group with the quotes stripped),
  whatever earlier lines of the field said. When that value is empty, the account may
  have been dropped for having no field.
\<close>

theorem last_field_line_wins:
  assumes "find_start (splitlines raw) = Some i"
    and "drop (Suc i) (splitlines raw) = pre @ l # post"
    and "current_after [] pre = Some a" and "a \<noteq> []"
    and "field_match f l = Some g"
    and "\<not> set_later f a a post"
  shows "\<exists>accs. parse_accounts_accounts_section raw = Inr accs
           \<and> (case map_of accs a of
                 None \<Rightarrow> strip_quotes g = []
               | Some d \<Rightarrow> get_field f d = Some (strip_quotes g))"
proof -
  obtain accs1 where a1: "scan_inv accs1 a"
      "\<forall>rest. scan_lines [] [] (pre @ rest) = scan_lines accs1 a rest"
    using scan_prefix[OF scan_inv_empty assms(3)] by blast
  obtain accs2 d2 where a2: "scan_line accs1 a l = Next accs2 a" "scan_inv accs2 a"
      "map_of accs2 a = Some d2" "get_field f d2 = Some (strip_quotes g)"
    using scan_line_sets[OF a1(1) assms(4,5)] by blast
  obtain accs3 d3 where a3: "scan_lines accs2 a post = Inr accs3" "distinct (map fst accs3)"
      "map_of accs3 a = Some d3" "get_field f d3 = Some (strip_quotes g)"
    using scan_rest_keeps[OF a2(2,3,4) assms(6)] by blast
  have sc: "scan_lines [] [] (pre @ l # post) = Inr accs3"
    using a1(2) a2(1) a3(1) by simp
  have p: "parse_accounts_accounts_section raw = Inr (filter has_field accs3)"
    using assms(1,2) sc by (simp add: parse_accounts_accounts_section_def)
  have hf: "strip_quotes g \<noteq> [] \<Longrightarrow> has_field (a, d3)"
    using a3(4) by (cases f) (auto simp: has_field_def get_field_def or_empty_def)
  have "case map_of (filter has_field accs3) a of
          None \<Rightarrow> strip_quotes g = []
        | Some d \<Rightarrow> get_field f d = Some (strip_quotes g)"
    unfolding cleanup_lookup[OF a3(2,3)] using a3(4) hf by auto
  then show ?thesis using p by simp
qed

text \<open>
  The theorem of C10 at work: the alias \<open>a\<close> has two blocks, each with an address
  line; the address returned is the one of the second block.
\<close>

theorem last_field_line_wins_witness:
  "find_start (splitlines
      (''accounts:'' @ [LF] @ ''  a:'' @ [LF] @ ''    address: one'' @ [LF]
       @ ''    private_key: k1'' @ [LF] @ ''  b:'' @ [LF] @ ''    address: other'' @ [LF]
       @ ''  a:'' @ [LF] @ ''    address: '' @ [dquote] @ ''two'' @ [dquote] @ [LF]
       @ ''  c:'' @ [LF] @ ''    address: three'' @ [LF])) = Some 0
   \<and> current_after [] [''  a:'', ''    address: one'', ''    private_key: k1'', ''  b:'',
                         ''    address: other'', ''  a:''] = Some ''a''
   \<and> field_match Address (''    address: '' @ [dquote] @ ''two'' @ [dquote])
       = Some ([dquote] @ ''two'' @ [dquote])
   \<and> \<not> set_later Address ''a'' ''a'' [''  c:'', ''    address: three'']
   \<and> (\<exists>accs d. parse_accounts_accounts_section
      (''accounts:'' @ [LF] @ ''  a:'' @ [LF] @ ''    address: one'' @ [LF]
       @ ''    private_key: k1'' @ [LF] @ ''  b:'' @ [LF] @ ''    address: other'' @ [LF]
       @ ''  a:'' @ [LF] @ ''    address: '' @ [dquote] @ ''two'' @ [dquote] @ [LF]
       @ ''  c:'' @ [LF] @ ''    address: three'' @ [LF]) = Inr accs
      \<and> map_of accs ''a'' = Some d \<and> address d = Some ''two'')"
proof -
  let ?raw = "''accounts:'' @ [LF] @ ''  a:'' @ [LF] @ ''    address: one'' @ [LF]
       @ ''    private_key: k1'' @ [LF] @ ''  b:'' @ [LF] @ ''    address: other'' @ [LF]
       @ ''  a:'' @ [LF] @ ''    address: '' @ [dquote] @ ''two'' @ [dquote] @ [LF]
       @ ''  c:'' @ [LF] @ ''    address: three'' @ [LF]"
  let ?pre = "[''  a:'', ''    address: one'', ''    private_key: k1'', ''  b:'',
               ''    address: other'', ''  a:'']"
  let ?l = "''    address: '' @ [dquote] @ ''two'' @ [dquote]"
  let ?post = "[''  c:'', ''    address: three'']"
  let ?g = "[dquote] @ ''two'' @ [dquote]"
  have h1: "find_start (splitlines ?raw) = Some 0" by code_simp
  have h2: "drop (Suc 0) (splitlines ?raw) = ?pre @ ?l # ?post" by code_simp
  have h3: "current_after [] ?pre = Some ''a''" by code_simp
  have h4: "''a'' \<noteq> []" by simp
  have h5: "field_match Address ?l = Some ?g" by code_simp
  have h6: "\<not> set_later Address ''a'' ''a'' ?post" by code_simp
  have v: "strip_quotes ?g = ''two''" by code_simp
  obtain accs where r: "parse_accounts_accounts_section ?raw = Inr accs"
      "case map_of accs ''a'' of
         None \<Rightarrow> strip_quotes ?g = []
       | Some d \<Rightarrow> get_field Address d = Some (strip_quotes ?g)"
    using last_field_line_wins[OF h1 h2 h3 h4 h5 h6] by blast
  obtain d where d: "map_of accs ''a'' = Some d" "address d = Some ''two''"
    using r(2) unfolding v by (cases "map_of accs ''a''") (simp_all add: get_field_def)
  show ?thesis using h1 h3 h5 h6 r(1) d by blast
qed

section \<open>The round trip\<close>
































end
